theory Spec2Isabelle
  imports Complex_Main "HOL-Library.Multiset" "HOL-Library.Sublist"
begin

section \<open>Lucky draw: the sampler of \<^verbatim>\<open>luckydraw_web.py\<close>\<close>

text \<open>
  The program draws prizes from a fixed list of six categories, uniformly or by weight,
  with or without replacement. The embedding follows the Python source function by
  function. These conventions hold throughout.

  \<^item> A Python float is an IEEE 754 binary64 number: a finite value, an infinity or
    NaN. Sums and products are rounded to the nearest representable number, ties to
    even, and overflow to an infinity. The sign of a zero is not kept: the program
    only adds, multiplies and compares floats, and no such operation tells \<open>-0.0\<close>
    from \<open>0.0\<close>.
  \<^item> The built-in \<open>sum\<close> adds from left to right, as CPython does up to
    version 3.11.
  \<^item> The weights are floats, as the signature of \<open>draw_prizes\<close> annotates them
    (\<^verbatim>\<open>List[float]\<close>); a list that holds Python integers is outside the model.
  \<^item> Exceptions are values: a function that can raise returns \<open>error + 'a\<close>, with
    \<open>Inl\<close> for the exception. Exhaustion of memory or time is not an exception of
    the model.
  \<^item> The generator \<open>random.Random\<close> belongs to the Python standard library, not to
    this program. Its primitive operations are a parameter (\<open>'g rng_ops\<close>, over an
    abstract generator state \<open>'g\<close>); the library functions built on them that the
    program calls (\<open>randrange\<close>, \<open>choice\<close>, \<open>choices\<close>, \<open>sample\<close>) are modelled
    after \<^verbatim>\<open>Lib/random.py\<close> of CPython 3.11. Mutation of the generator is
    explicit state passing: every call returns the advanced generator.
\<close>

subsection \<open>Exceptions\<close>

datatype error =
    ValueError string
  | IndexError string
  | OverflowError string
  | EOFError

subsection \<open>Floats\<close>

text \<open>
  A finite double is given by its value, a rational number. The values that occur are
  the representable ones, \<open>m * 2 ^ q\<close> with \<open>|m| < 2 ^ 53\<close> and
  \<open>- 1074 \<le> q \<le> 971\<close> (predicate \<open>is_double\<close>).
\<close>

datatype double = Finite rat | PInf | NInf | NaN

text \<open>
  The exponent \<open>q\<close> of the unit in the last place of a positive number \<open>a\<close>:
  the least \<open>q \<ge> - 1074\<close> with \<open>a < 2 ^ (q + 53)\<close>. The search stops at 972,
  which is reached from \<open>2 ^ 1024\<close> on.
\<close>

fun ulp_search :: "nat \<Rightarrow> int \<Rightarrow> rat \<Rightarrow> int" where
  "ulp_search 0 q a = q"
| "ulp_search (Suc n) q a = (if a < 2 powi (q + 53) then q else ulp_search n (q + 1) a)"

definition ulp_exp :: "rat \<Rightarrow> int" where
  "ulp_exp a = ulp_search 2046 (- 1074) a"

text \<open>Rounding to the nearest integer, ties to the even one.\<close>

definition round_even :: "rat \<Rightarrow> int" where
  "round_even s =
     (let f = \<lfloor>s\<rfloor>; d = s - of_int f in
      if d < 1 / 2 then f else if 1 / 2 < d then f + 1 else if even f then f else f + 1)"

definition overflow_bound :: rat where
  "overflow_bound = 2 powi 1024"

text \<open>
  Rounding of a positive number: to the nearest multiple of its unit in the last place,
  and to infinity when that reaches \<open>2 ^ 1024\<close>.
\<close>

definition round_pos :: "rat \<Rightarrow> double" where
  "round_pos a =
     (let q = ulp_exp a; v = of_int (round_even (a / 2 powi q)) * 2 powi q in
      if overflow_bound \<le> v then PInf else Finite v)"

fun fneg :: "double \<Rightarrow> double" where
  "fneg (Finite a) = Finite (- a)"
| "fneg PInf = NInf"
| "fneg NInf = PInf"
| "fneg NaN = NaN"

definition round_double :: "rat \<Rightarrow> double" where
  "round_double x =
     (if x = 0 then Finite 0 else if 0 < x then round_pos x else fneg (round_pos (- x)))"

definition representable :: "rat \<Rightarrow> bool" where
  "representable a \<longleftrightarrow>
     a < overflow_bound \<and> (let s = a / 2 powi ulp_exp a in of_int \<lfloor>s\<rfloor> = s)"

definition is_double :: "double \<Rightarrow> bool" where
  "is_double x = (case x of Finite a \<Rightarrow> representable \<bar>a\<bar> | _ \<Rightarrow> True)"

text \<open>\<^verbatim>\<open>x + y\<close> on floats.\<close>

fun fadd :: "double \<Rightarrow> double \<Rightarrow> double" where
  "fadd NaN y = NaN"
| "fadd x NaN = NaN"
| "fadd PInf NInf = NaN"
| "fadd NInf PInf = NaN"
| "fadd PInf y = PInf"
| "fadd x PInf = PInf"
| "fadd NInf y = NInf"
| "fadd x NInf = NInf"
| "fadd (Finite a) (Finite b) = round_double (a + b)"

text \<open>\<^verbatim>\<open>x * y\<close> on floats: an infinity times zero is NaN.\<close>

fun fmul :: "double \<Rightarrow> double \<Rightarrow> double" where
  "fmul NaN y = NaN"
| "fmul x NaN = NaN"
| "fmul (Finite a) (Finite b) = round_double (a * b)"
| "fmul (Finite a) PInf = (if a = 0 then NaN else if 0 < a then PInf else NInf)"
| "fmul (Finite a) NInf = (if a = 0 then NaN else if 0 < a then NInf else PInf)"
| "fmul PInf (Finite b) = (if b = 0 then NaN else if 0 < b then PInf else NInf)"
| "fmul NInf (Finite b) = (if b = 0 then NaN else if 0 < b then NInf else PInf)"
| "fmul PInf PInf = PInf"
| "fmul PInf NInf = NInf"
| "fmul NInf PInf = NInf"
| "fmul NInf NInf = PInf"

text \<open>\<^verbatim>\<open>x <= y\<close> and \<^verbatim>\<open>x < y\<close> on floats: false when either side is NaN.\<close>

fun fle :: "double \<Rightarrow> double \<Rightarrow> bool" where
  "fle NaN y = False"
| "fle x NaN = False"
| "fle NInf y = True"
| "fle x PInf = True"
| "fle PInf y = False"
| "fle x NInf = False"
| "fle (Finite a) (Finite b) = (a \<le> b)"

fun flt :: "double \<Rightarrow> double \<Rightarrow> bool" where
  "flt NaN y = False"
| "flt x NaN = False"
| "flt PInf y = False"
| "flt x NInf = False"
| "flt NInf y = True"
| "flt x PInf = True"
| "flt (Finite a) (Finite b) = (a < b)"

text \<open>\<^verbatim>\<open>math.isfinite(x)\<close>.\<close>

fun isfinite :: "double \<Rightarrow> bool" where
  "isfinite (Finite a) = True"
| "isfinite x = False"

text \<open>
  The built-in \<^verbatim>\<open>sum(w)\<close> of a list of floats: from the integer 0, adding from
  left to right. The sum of the empty list is the integer 0, which compares as the
  float zero does.
\<close>

definition py_sum :: "double list \<Rightarrow> double" where
  "py_sum w = foldl fadd (Finite 0) w"

subsection \<open>Module constants\<close>

definition PRIZES :: "string list" where
  "PRIZES = [''photo frame'', ''slogan'', ''sticker set'', ''notebook'', ''pin button'', ''postcard'']"

definition DEFAULT_WEIGHTS :: "double list" where
  "DEFAULT_WEIGHTS = [Finite 1, Finite 3, Finite 6, Finite 10, Finite 20, Finite 30]"

subsection \<open>The random source\<close>

text \<open>
  \<open>rng_seed s\<close> is \<^verbatim>\<open>random.Random(s)\<close> for an integer seed, \<open>rng_random\<close> is
  \<^verbatim>\<open>rng.random()\<close> and \<open>rng_randbelow n\<close> is \<^verbatim>\<open>rng._randbelow(n)\<close> for
  \<open>n > 0\<close>. Each returns its value together with the generator after the call.
\<close>

record 'g rng_ops =
  rng_seed :: "int \<Rightarrow> 'g"
  rng_random :: "'g \<Rightarrow> double \<times> 'g"
  rng_randbelow :: "nat \<Rightarrow> 'g \<Rightarrow> nat \<times> 'g"

text \<open>
  The contract of the library: \<^verbatim>\<open>random()\<close> is a float in \<open>[0, 1)\<close> and
  \<^verbatim>\<open>_randbelow(n)\<close> lies in \<open>[0, n)\<close>.
\<close>

definition unit_float :: "double \<Rightarrow> bool" where
  "unit_float x = (case x of Finite u \<Rightarrow> 0 \<le> u \<and> u < 1 \<and> is_double x | _ \<Rightarrow> False)"

definition rng_ok :: "'g rng_ops \<Rightarrow> bool" where
  "rng_ok ops \<longleftrightarrow>
     (\<forall>g. unit_float (fst (rng_random ops g))) \<and>
     (\<forall>n g. 0 < n \<longrightarrow> fst (rng_randbelow ops n g) < n)"

text \<open>\<^verbatim>\<open>rng.randrange(n)\<close> with one argument: an empty range raises.\<close>

definition randrange :: "'g rng_ops \<Rightarrow> nat \<Rightarrow> 'g \<Rightarrow> error + nat \<times> 'g" where
  "randrange ops n g =
     (if n = 0 then Inl (ValueError ''empty range for randrange()'')
      else Inr (rng_randbelow ops n g))"

text \<open>\<^verbatim>\<open>xs.pop(i)\<close> for a non-negative index: the element and the list without it.\<close>

definition pop_at :: "'a list \<Rightarrow> nat \<Rightarrow> error + 'a \<times> 'a list" where
  "pop_at xs i =
     (if xs = [] then Inl (IndexError ''pop from empty list'')
      else if i < length xs then Inr (xs ! i, take i xs @ drop (Suc i) xs)
      else Inl (IndexError ''pop index out of range''))"

subsection \<open>Weighted sampling without replacement\<close>

text \<open>
  The inner loop (lines 82 to 88):
  \<^verbatim>\<open>
      cum = 0.0
      for i, wi in enumerate(w):
          cum += wi
          if r <= cum: ... break
  \<close>
  \<open>scan r cum i ws\<close> is the loop at index \<open>i\<close> with the rest \<open>ws\<close> of the weights
  still to visit; \<open>None\<close> is the loop running off the end without a selection.
\<close>

fun scan :: "double \<Rightarrow> double \<Rightarrow> nat \<Rightarrow> double list \<Rightarrow> nat option" where
  "scan r cum i [] = None"
| "scan r cum i (wi # ws) =
     (let cum' = fadd cum wi in if fle r cum' then Some i else scan r cum' (Suc i) ws)"

text \<open>
  The working state of the outer loop: \<open>pop\<close>, \<open>w\<close>, \<open>result\<close> and the generator.
\<close>

type_synonym 'g wstate = "string list \<times> double list \<times> string list \<times> 'g"

text \<open>One iteration of \<^verbatim>\<open>for _ in range(k)\<close> (lines 74 to 88).\<close>

definition draw_step :: "'g rng_ops \<Rightarrow> 'g wstate \<Rightarrow> error + 'g wstate" where
  "draw_step ops s =
     (case s of (pop, w, result, g) \<Rightarrow>
        let total = py_sum w in
        if fle total (Finite 0) then
          (case randrange ops (length pop) g of
             Inl e \<Rightarrow> Inl e
           | Inr (idx, g') \<Rightarrow>
               (case pop_at pop idx of
                  Inl e \<Rightarrow> Inl e
                | Inr (x, pop') \<Rightarrow>
                    (case pop_at w idx of
                       Inl e \<Rightarrow> Inl e
                     | Inr (_, w') \<Rightarrow> Inr (pop', w', result @ [x], g'))))
        else
          (case rng_random ops g of (u, g') \<Rightarrow>
             let r = fmul u total in
             (case scan r (Finite 0) 0 w of
                None \<Rightarrow> Inr (pop, w, result, g')
              | Some i \<Rightarrow>
                  (case pop_at pop i of
                     Inl e \<Rightarrow> Inl e
                   | Inr (x, pop') \<Rightarrow>
                       (case pop_at w i of
                          Inl e \<Rightarrow> Inl e
                        | Inr (_, w') \<Rightarrow> Inr (pop', w', result @ [x], g'))))))"

fun sample_loop :: "'g rng_ops \<Rightarrow> nat \<Rightarrow> 'g wstate \<Rightarrow> error + 'g wstate" where
  "sample_loop ops 0 s = Inr s"
| "sample_loop ops (Suc k) s =
     (case draw_step ops s of Inl e \<Rightarrow> Inl e | Inr s' \<Rightarrow> sample_loop ops k s')"

definition weighted_sample_without_replacement ::
  "'g rng_ops \<Rightarrow> string list \<Rightarrow> double list \<Rightarrow> int \<Rightarrow> 'g \<Rightarrow> error + string list \<times> 'g" where
  "weighted_sample_without_replacement ops population weights k g =
     (if k < 0 then Inl (ValueError ''k must be non-negative'')
      else if k > int (length population) then
        Inl (ValueError ''k must be <= population size for sampling without replacement'')
      else
        (case sample_loop ops (nat k) (population, weights, [], g) of
           Inl e \<Rightarrow> Inl e
         | Inr (pop, w, result, g') \<Rightarrow> Inr (result, g')))"

subsection \<open>Library functions of \<^verbatim>\<open>random.Random\<close> used by the program\<close>

text \<open>
  \<^verbatim>\<open>rng.choice(seq)\<close>: \<^verbatim>\<open>seq[self._randbelow(len(seq))]\<close>, and IndexError on
  an empty sequence.
\<close>

definition choice :: "'g rng_ops \<Rightarrow> 'a list \<Rightarrow> 'g \<Rightarrow> error + 'a \<times> 'g" where
  "choice ops seq g =
     (if length seq = 0 then Inl (IndexError ''Cannot choose from an empty sequence'')
      else
        (case rng_randbelow ops (length seq) g of (j, g') \<Rightarrow>
           if j < length seq then Inr (seq ! j, g')
           else Inl (IndexError ''list index out of range'')))"

text \<open>
  \<^verbatim>\<open>bisect.bisect_right(a, x, lo, hi)\<close>, the binary search itself, so that the
  model says what the library returns on a list that is not sorted too:
  \<^verbatim>\<open>
      while lo < hi:
          mid = (lo + hi) // 2
          if x < a[mid]: hi = mid
          else: lo = mid + 1
      return lo
  \<close>
  Every \<open>mid\<close> read is below \<open>hi\<close>; \<open>choices\<close> calls it with
  \<open>hi = len(a) - 1\<close>, so the reads are in range.
\<close>

function bisect :: "double list \<Rightarrow> double \<Rightarrow> nat \<Rightarrow> nat \<Rightarrow> nat" where
  "bisect a x lo hi =
     (if lo < hi then
        (let mid = (lo + hi) div 2 in
         if flt x (a ! mid) then bisect a x lo mid else bisect a x (mid + 1) hi)
      else lo)"
  by pat_completeness auto
termination
  by (relation "measure (\<lambda>(a, x, lo, hi). hi - lo)") auto

declare bisect.simps [simp del]

text \<open>
  \<^verbatim>\<open>itertools.accumulate(weights)\<close>: the first weight, then the running sums.
\<close>

fun running :: "double \<Rightarrow> double list \<Rightarrow> double list" where
  "running acc [] = []"
| "running acc (x # xs) = fadd acc x # running (fadd acc x) xs"

fun accumulate :: "double list \<Rightarrow> double list" where
  "accumulate [] = []"
| "accumulate (x # xs) = x # running x xs"

text \<open>
  The list comprehension of \<open>choices\<close>:
  \<^verbatim>\<open>[population[bisect(cum_weights, random() * total, 0, hi)] for i in _repeat(None, k)]\<close>
\<close>

fun choices_loop ::
  "'g rng_ops \<Rightarrow> 'a list \<Rightarrow> double list \<Rightarrow> double \<Rightarrow> nat \<Rightarrow> nat \<Rightarrow> 'g \<Rightarrow> error + 'a list \<times> 'g" where
  "choices_loop ops population cum tot hi 0 g = Inr ([], g)"
| "choices_loop ops population cum tot hi (Suc k) g =
     (case rng_random ops g of (u, g') \<Rightarrow>
        let idx = bisect cum (fmul u tot) 0 hi in
        if idx < length population then
          (case choices_loop ops population cum tot hi k g' of
             Inl e \<Rightarrow> Inl e
           | Inr (rest, g'') \<Rightarrow> Inr (population ! idx # rest, g''))
        else Inl (IndexError ''list index out of range''))"

text \<open>
  \<open>sys.maxsize\<close> of a 64-bit build: \<^verbatim>\<open>itertools.repeat(None, k)\<close> raises
  OverflowError for a larger \<open>k\<close>.
\<close>

definition PY_SSIZE_T_MAX :: int where
  "PY_SSIZE_T_MAX = 2 ^ 63 - 1"

text \<open>\<^verbatim>\<open>total = cum_weights[-1] + 0.0\<close>\<close>

definition total_weight :: "double list \<Rightarrow> double" where
  "total_weight weights = fadd (last (accumulate weights)) (Finite 0)"

text \<open>
  \<^verbatim>\<open>rng.choices(population, weights=weights, k=k)\<close> with weights given:
  \<^verbatim>\<open>
      cum_weights = list(_accumulate(weights))
      if len(cum_weights) != n: raise ValueError(...)
      total = cum_weights[-1] + 0.0
      if total <= 0.0: raise ValueError('Total of weights must be greater than zero')
      if not _isfinite(total): raise ValueError('Total of weights must be finite')
      hi = n - 1
      return [... for i in _repeat(None, k)]
  \<close>
  \<open>cum_weights[-1]\<close> of an empty list raises IndexError.
\<close>

definition choices :: "'g rng_ops \<Rightarrow> 'a list \<Rightarrow> double list \<Rightarrow> int \<Rightarrow> 'g \<Rightarrow> error + 'a list \<times> 'g" where
  "choices ops population weights k g =
     (let n = length population; cum_weights = accumulate weights in
      if length cum_weights \<noteq> n then
        Inl (ValueError ''The number of weights does not match the population'')
      else if cum_weights = [] then Inl (IndexError ''list index out of range'')
      else
        (let total = total_weight weights in
         if fle total (Finite 0) then
           Inl (ValueError ''Total of weights must be greater than zero'')
         else if \<not> isfinite total then Inl (ValueError ''Total of weights must be finite'')
         else if PY_SSIZE_T_MAX < k then
           Inl (OverflowError ''Python int too large to convert to C ssize_t'')
         else choices_loop ops population cum_weights total (n - 1) (nat k) g))"

text \<open>
  \<^verbatim>\<open>rng.sample(population, k)\<close>. CPython keeps a pool when the population has at
  most \<open>setsize\<close> elements, and \<open>setsize\<close> is at least 21:
  \<^verbatim>\<open>
      pool = list(population)
      for i in range(k):
          j = randbelow(n - i)
          result[i] = pool[j]
          pool[j] = pool[n - i - 1]
  \<close>
  \<open>sample_pool ops n i m\<close> is the loop at index \<open>i\<close> with \<open>m\<close> iterations to go.
  The loop runs for \<open>i < k \<le> n\<close> only, so \<open>n - i - 1\<close> is never negative.
\<close>

fun sample_pool ::
  "'g rng_ops \<Rightarrow> nat \<Rightarrow> nat \<Rightarrow> nat \<Rightarrow> 'a list \<times> 'a list \<times> 'g \<Rightarrow> error + 'a list \<times> 'a list \<times> 'g" where
  "sample_pool ops n i 0 s = Inr s"
| "sample_pool ops n i (Suc m) s =
     (case s of (pool, result, g) \<Rightarrow>
        (case rng_randbelow ops (n - i) g of (j, g') \<Rightarrow>
           if j < length pool \<and> i < n \<and> n - i - 1 < length pool then
             sample_pool ops n (Suc i) m (pool[j := pool ! (n - i - 1)], result @ [pool ! j], g')
           else Inl (IndexError ''list index out of range'')))"

text \<open>
  The other branch of the library function (a set of selected indices, for populations
  of more than \<open>setsize\<close> elements) is not part of the model: the program samples
  from \<open>PRIZES\<close> only, which has six elements. The model is \<open>sample\<close> for
  populations of at most 21 elements.
\<close>

definition sample :: "'g rng_ops \<Rightarrow> 'a list \<Rightarrow> int \<Rightarrow> 'g \<Rightarrow> error + 'a list \<times> 'g" where
  "sample ops population k g =
     (let n = length population in
      if \<not> (0 \<le> k \<and> k \<le> int n) then
        Inl (ValueError ''Sample larger than population or is negative'')
      else
        (case sample_pool ops n 0 (nat k) (population, [], g) of
           Inl e \<Rightarrow> Inl e
         | Inr (pool, result, g') \<Rightarrow> Inr (result, g')))"

subsection \<open>Decimal rendering of integers\<close>

text \<open>\<^verbatim>\<open>str(n)\<close> for an integer, used by the f-strings and by \<open>print\<close>.\<close>

definition digit_char :: "nat \<Rightarrow> char" where
  "digit_char d = char_of (48 + d)"

function str_nat :: "nat \<Rightarrow> string" where
  "str_nat n = (if n < 10 then [digit_char n] else str_nat (n div 10) @ [digit_char (n mod 10)])"
  by pat_completeness auto
termination
  by (relation "measure id") auto

declare str_nat.simps [simp del]

definition str_int :: "int \<Rightarrow> string" where
  "str_int i = (if i < 0 then CHR ''-'' # str_nat (nat (- i)) else str_nat (nat i))"

subsection \<open>\<open>draw_prizes\<close>\<close>

text \<open>
  The list comprehension \<^verbatim>\<open>[rng.choice(PRIZES) for _ in range(quantity)]\<close>.
\<close>

fun choice_loop :: "'g rng_ops \<Rightarrow> 'a list \<Rightarrow> nat \<Rightarrow> 'g \<Rightarrow> error + 'a list \<times> 'g" where
  "choice_loop ops seq 0 g = Inr ([], g)"
| "choice_loop ops seq (Suc k) g =
     (case choice ops seq g of
        Inl e \<Rightarrow> Inl e
      | Inr (x, g') \<Rightarrow>
          (case choice_loop ops seq k g' of
             Inl e \<Rightarrow> Inl e
           | Inr (rest, g'') \<Rightarrow> Inr (x # rest, g'')))"

text \<open>
  The body of \<^verbatim>\<open>draw_prizes(quantity, unique, seed, tiered, weights)\<close>, with the
  generator it leaves behind. With \<open>seed = None\<close> the library seeds the generator from
  the operating system; that generator is the argument \<open>entropy\<close>. \<open>weights = None\<close>
  is the default argument.
\<close>

definition draw_prizes_run ::
  "'g rng_ops \<Rightarrow> 'g \<Rightarrow> int \<Rightarrow> bool \<Rightarrow> int option \<Rightarrow> bool \<Rightarrow> double list option
     \<Rightarrow> error + string list \<times> 'g" where
  "draw_prizes_run ops entropy quantity unique seed tiered weights =
     (if quantity < 1 then Inl (ValueError ''quantity must be at least 1'')
      else
        (let rng = (case seed of None \<Rightarrow> entropy | Some s \<Rightarrow> rng_seed ops s);
             weights = (case weights of None \<Rightarrow> DEFAULT_WEIGHTS | Some ws \<Rightarrow> ws)
         in
         if length weights \<noteq> length PRIZES then
           Inl (ValueError ''weights length must match number of prizes'')
         else if unique then
           (if quantity > int (length PRIZES) then
              Inl (ValueError (''quantity must be <= '' @ str_nat (length PRIZES)
                     @ '' when drawing unique prizes''))
            else if tiered then
              weighted_sample_without_replacement ops PRIZES weights quantity rng
            else sample ops PRIZES quantity rng)
         else
           (if tiered then choices ops PRIZES weights quantity rng
            else choice_loop ops PRIZES (nat quantity) rng)))"

text \<open>The value returned to the caller: the generator is local to \<open>draw_prizes\<close>.\<close>

definition returned :: "error + 'a \<times> 'g \<Rightarrow> error + 'a" where
  "returned r = (case r of Inl e \<Rightarrow> Inl e | Inr (x, g) \<Rightarrow> Inr x)"

definition draw_prizes ::
  "'g rng_ops \<Rightarrow> 'g \<Rightarrow> int \<Rightarrow> bool \<Rightarrow> int option \<Rightarrow> bool \<Rightarrow> double list option \<Rightarrow> error + string list" where
  "draw_prizes ops entropy quantity unique seed tiered weights =
     returned (draw_prizes_run ops entropy quantity unique seed tiered weights)"

subsection \<open>Weights whose sums stay finite\<close>

text \<open>
  The weighted sampler sums the weights that remain, a subsequence of the weights it
  was given. \<open>sums_finite ws\<close> says that no such sum is infinite or NaN;
  \<open>moderate\<close> weights, between 0 and \<open>2 ^ 970\<close>, are an instance.
\<close>

definition sums_finite :: "double list \<Rightarrow> bool" where
  "sums_finite ws = list_all (\<lambda>ws'. isfinite (py_sum ws')) (subseqs ws)"

definition moderate :: "double \<Rightarrow> bool" where
  "moderate x = (case x of Finite a \<Rightarrow> 0 \<le> a \<and> a \<le> 2 powi 970 | _ \<Rightarrow> False)"

subsection \<open>The calls made to the generator\<close>

text \<open>
  To state which calls a run makes, a generator can be wrapped so that it keeps a log:
  every call of \<open>random()\<close> or \<open>_randbelow(n)\<close> appends an entry and otherwise does
  what the wrapped generator does.
\<close>

datatype call = CallRandom | CallRandbelow nat

definition logged :: "'g rng_ops \<Rightarrow> ('g \<times> call list) rng_ops" where
  "logged ops =
     \<lparr> rng_seed = (\<lambda>s. (rng_seed ops s, [])),
       rng_random = (\<lambda>gl. case gl of (g, l) \<Rightarrow>
                      (case rng_random ops g of (u, g') \<Rightarrow> (u, (g', l @ [CallRandom])))),
       rng_randbelow = (\<lambda>n gl. case gl of (g, l) \<Rightarrow>
                      (case rng_randbelow ops n g of (j, g') \<Rightarrow> (j, (g', l @ [CallRandbelow n])))) \<rparr>"

text \<open>Forgetting the log of a result.\<close>

definition unlogged :: "error + 'a \<times> 'g \<times> call list \<Rightarrow> error + 'a \<times> 'g" where
  "unlogged r = (case r of Inl e \<Rightarrow> Inl e | Inr (x, g, l) \<Rightarrow> Inr (x, g))"


text \<open>
  The calls that the specification lists for the weighted sampler, one for each step: a
  fallback step (total at most 0) calls \<open>randrange(len(pop))\<close>, which is one
  \<open>_randbelow(len(pop))\<close>, and every other step calls \<open>random()\<close>.
  \<open>sampler_calls ops k s\<close> lists them for \<open>k\<close> steps from the state \<open>s\<close>.
\<close>

definition step_call :: "'g wstate \<Rightarrow> call" where
  "step_call s =
     (case s of (pop, w, result, g) \<Rightarrow>
        if fle (py_sum w) (Finite 0) then CallRandbelow (length pop) else CallRandom)"

fun sampler_calls :: "'g rng_ops \<Rightarrow> nat \<Rightarrow> 'g wstate \<Rightarrow> call list" where
  "sampler_calls ops 0 s = []"
| "sampler_calls ops (Suc k) s =
     step_call s # (case draw_step ops s of Inl e \<Rightarrow> [] | Inr s' \<Rightarrow> sampler_calls ops k s')"

text \<open>
  The calls of a run of \<open>draw_prizes\<close> in each of its four modes: the steps of
  the weighted sampler, \<open>_randbelow(6 - j)\<close> for the \<open>j\<close>-th element of
  \<open>sample\<close>, \<open>random()\<close> for each element of \<open>choices\<close>, and
  \<open>_randbelow(6)\<close> for each \<open>choice\<close>.
\<close>

definition run_calls ::
  "'g rng_ops \<Rightarrow> 'g \<Rightarrow> int \<Rightarrow> bool \<Rightarrow> bool \<Rightarrow> double list \<Rightarrow> call list" where
  "run_calls ops rng quantity unique tiered ws =
     (if unique then
        (if tiered then sampler_calls ops (nat quantity) (PRIZES, ws, [], rng)
         else map (\<lambda>j. CallRandbelow (6 - j)) [0..<nat quantity])
      else
        (if tiered then replicate (nat quantity) CallRandom
         else replicate (nat quantity) (CallRandbelow 6)))"

subsection \<open>\<open>main\<close>\<close>

text \<open>
  The namespace returned by \<open>parse_args\<close>: \<open>argparse\<close> is library code, and
  \<open>main\<close> is modelled from the parsed arguments on.
\<close>

record args =
  arg_quantity :: "int option"
  arg_unique :: bool
  arg_seed :: "int option"
  arg_no_tiered :: bool

text \<open>
  The two output streams, each the list of the texts written to it, in order. A
  \<open>print\<close> writes its text with the newline that ends it; the prompt of
  \<open>input\<close> is written to the standard output without one.
\<close>

record console =
  stdout :: "string list"
  stderr :: "string list"

definition nl :: char where
  "nl = CHR 0x0A"

definition print :: "string \<Rightarrow> console \<Rightarrow> console" where
  "print text con = con\<lparr>stdout := stdout con @ [text @ [nl]]\<rparr>"

definition print_err :: "string \<Rightarrow> console \<Rightarrow> console" where
  "print_err text con = con\<lparr>stderr := stderr con @ [text @ [nl]]\<rparr>"

text \<open>
  \<^verbatim>\<open>str.strip()\<close>. A character of a \<open>string\<close> is a code point below 256; the
  whitespace among these are the codes 9 to 13, 28 to 32, 133 and 160.
\<close>

definition is_space :: "char \<Rightarrow> bool" where
  "is_space c \<longleftrightarrow>
     (let n = of_char c :: nat in
      (9 \<le> n \<and> n \<le> 13) \<or> (28 \<le> n \<and> n \<le> 32) \<or> n = 133 \<or> n = 160)"

definition strip :: "string \<Rightarrow> string" where
  "strip s = rev (dropWhile is_space (rev (dropWhile is_space s)))"

text \<open>
  The first loop of the report:
  \<^verbatim>\<open>for i, prize in enumerate(prizes, start=1): print(f" {i}. {prize}")\<close>
\<close>

fun print_prizes :: "nat \<Rightarrow> string list \<Rightarrow> console \<Rightarrow> console" where
  "print_prizes i [] con = con"
| "print_prizes i (prize # rest) con =
     print_prizes (Suc i) rest (print ('' '' @ str_nat i @ ''. '' @ prize) con)"

text \<open>
  The second loop, with \<open>counts = Counter(prizes)\<close>:
  \<^verbatim>\<open>
      for prize in PRIZES:
          if counts[prize]: print(f" - {prize}: {counts[prize]}")
  \<close>
\<close>

fun print_summary :: "string list \<Rightarrow> string list \<Rightarrow> console \<Rightarrow> console" where
  "print_summary prizes [] con = con"
| "print_summary prizes (prize # rest) con =
     print_summary prizes rest
       (if count_list prizes prize \<noteq> 0 then
          print ('' - '' @ prize @ '': '' @ str_nat (count_list prizes prize)) con
        else con)"

text \<open>
  Lines 152 to 168 of \<open>main\<close>: the draw and the report. Only ValueError is caught; any
  other exception leaves \<open>main\<close>.
\<close>

definition main_draw ::
  "'g rng_ops \<Rightarrow> 'g \<Rightarrow> args \<Rightarrow> int \<Rightarrow> console \<Rightarrow> (error + int) \<times> console" where
  "main_draw ops entropy a quantity con =
     (case draw_prizes ops entropy quantity (arg_unique a) (arg_seed a) (\<not> arg_no_tiered a) None of
        Inl (ValueError msg) \<Rightarrow> (Inr 2, print_err (''Error: '' @ msg) con)
      | Inl e \<Rightarrow> (Inl e, con)
      | Inr prizes \<Rightarrow>
          (let con1 = print ([nl] @ ''You bought: '' @ str_int quantity @ '' ''
                             @ ''prize(s). Here are your randomized prizes:'' @ [nl]) con;
               con2 = print_prizes 1 prizes con1;
               con3 = print ([nl] @ ''Summary:'') con2;
               con4 = print_summary prizes PRIZES con3
           in (Inr 0, con4)))"

text \<open>
  \<open>main\<close>. \<open>int_of\<close> is the built-in \<open>int\<close> on strings (\<open>None\<close> where it raises
  ValueError), a parameter. \<open>stdin\<close> is the line that \<open>input\<close> reads, or \<open>None\<close> at
  the end of the input, where \<open>input\<close> raises EOFError, which \<open>main\<close> does not catch.
  The result is the value returned (\<open>Inr\<close>) or the exception that leaves \<open>main\<close>
  (\<open>Inl\<close>), and what was written.
\<close>

definition main ::
  "'g rng_ops \<Rightarrow> (string \<Rightarrow> int option) \<Rightarrow> 'g \<Rightarrow> args \<Rightarrow> string option \<Rightarrow> (error + int) \<times> console" where
  "main ops int_of entropy a stdin =
     (let con = \<lparr>stdout = [], stderr = []\<rparr> in
      case arg_quantity a of
        Some quantity \<Rightarrow> main_draw ops entropy a quantity con
      | None \<Rightarrow>
          (let con' = con\<lparr>stdout := stdout con @ [''Enter quantity (number of prizes bought): '']\<rparr> in
           case stdin of
             None \<Rightarrow> (Inl EOFError, con')
           | Some raw \<Rightarrow>
               (case int_of (strip raw) of
                  None \<Rightarrow>
                    (Inr 1, print_err ''Invalid input. Please enter a positive integer for quantity.'' con')
                | Some quantity \<Rightarrow> main_draw ops entropy a quantity con')))"

subsection \<open>The sampler on a store\<close>

text \<open>
  Python lists and generators are objects reached by reference: \<open>pop\<close> and
  \<open>append\<close> change a list in place, and \<open>random()\<close> and \<open>randrange\<close> change the
  state of the generator they are called on. To say which objects a call changes, the
  sampler is modelled a second time on an explicit store: every object has an address,
  \<open>strs\<close> and \<open>nums\<close> give the contents of the lists of strings and of floats,
  \<open>gens\<close> the states of the generator objects, \<open>fresh\<close> is the first address not
  yet in use, and \<open>screen\<close> is the console. A function takes the addresses of its
  arguments and returns the address of its result.
\<close>

record 'g world =
  strs :: "nat \<Rightarrow> string list"
  nums :: "nat \<Rightarrow> double list"
  gens :: "nat \<Rightarrow> 'g"
  fresh :: nat
  screen :: console

text \<open>
  A new list object (a slice copy \<^verbatim>\<open>xs[:]\<close>, a literal \<^verbatim>\<open>[]\<close>, a returned list)
  and a new generator object (\<^verbatim>\<open>random.Random(seed)\<close>).
\<close>

definition new_strs :: "string list \<Rightarrow> 'g world \<Rightarrow> nat \<times> 'g world" where
  "new_strs v h = (fresh h, h\<lparr>strs := (strs h)(fresh h := v), fresh := Suc (fresh h)\<rparr>)"

definition new_nums :: "double list \<Rightarrow> 'g world \<Rightarrow> nat \<times> 'g world" where
  "new_nums v h = (fresh h, h\<lparr>nums := (nums h)(fresh h := v), fresh := Suc (fresh h)\<rparr>)"

definition new_gen :: "'g \<Rightarrow> 'g world \<Rightarrow> nat \<times> 'g world" where
  "new_gen g h = (fresh h, h\<lparr>gens := (gens h)(fresh h := g), fresh := Suc (fresh h)\<rparr>)"

text \<open>
  \<^verbatim>\<open>rng.random()\<close> and \<^verbatim>\<open>rng.randrange(n)\<close> on the generator object at the
  address \<open>rng\<close>: the call leaves the object in its next state.
\<close>

definition random_h :: "'g rng_ops \<Rightarrow> nat \<Rightarrow> 'g world \<Rightarrow> double \<times> 'g world" where
  "random_h ops rng h =
     (case rng_random ops (gens h rng) of (u, g') \<Rightarrow> (u, h\<lparr>gens := (gens h)(rng := g')\<rparr>))"

definition randrange_h :: "'g rng_ops \<Rightarrow> nat \<Rightarrow> nat \<Rightarrow> 'g world \<Rightarrow> (error + nat) \<times> 'g world" where
  "randrange_h ops rng n h =
     (case randrange ops n (gens h rng) of
        Inl e \<Rightarrow> (Inl e, h)
      | Inr (idx, g') \<Rightarrow> (Inr idx, h\<lparr>gens := (gens h)(rng := g')\<rparr>))"

text \<open>
  \<^verbatim>\<open>result.append(pop.pop(i)); w.pop(i)\<close> (lines 78 and 79, and 86 and 87), on the
  objects at the addresses \<open>pop\<close>, \<open>w\<close> and \<open>result\<close>. The first statement has taken
  effect when the second raises.
\<close>

definition pop_append_h :: "nat \<Rightarrow> nat \<Rightarrow> nat \<Rightarrow> nat \<Rightarrow> 'g world \<Rightarrow> error option \<times> 'g world" where
  "pop_append_h pop w result i h =
     (case pop_at (strs h pop) i of
        Inl e \<Rightarrow> (Some e, h)
      | Inr (x, pop') \<Rightarrow>
          (let h1 = h\<lparr>strs := (strs h)(pop := pop')\<rparr>;
               h2 = h1\<lparr>strs := (strs h1)(result := strs h1 result @ [x])\<rparr>
           in case pop_at (nums h2 w) i of
                Inl e \<Rightarrow> (Some e, h2)
              | Inr (y, w') \<Rightarrow> (None, h2\<lparr>nums := (nums h2)(w := w')\<rparr>)))"

text \<open>One iteration of the outer loop; \<open>Some e\<close> is the exception \<open>e\<close> raised.\<close>

definition draw_step_h ::
  "'g rng_ops \<Rightarrow> nat \<Rightarrow> nat \<Rightarrow> nat \<Rightarrow> nat \<Rightarrow> 'g world \<Rightarrow> error option \<times> 'g world" where
  "draw_step_h ops pop w result rng h =
     (let total = py_sum (nums h w) in
      if fle total (Finite 0) then
        (case randrange_h ops rng (length (strs h pop)) h of
           (Inl e, h') \<Rightarrow> (Some e, h')
         | (Inr idx, h') \<Rightarrow> pop_append_h pop w result idx h')
      else
        (case random_h ops rng h of (u, h') \<Rightarrow>
           let r = fmul u total in
           (case scan r (Finite 0) 0 (nums h' w) of
              None \<Rightarrow> (None, h')
            | Some i \<Rightarrow> pop_append_h pop w result i h')))"

fun sample_loop_h ::
  "'g rng_ops \<Rightarrow> nat \<Rightarrow> nat \<Rightarrow> nat \<Rightarrow> nat \<Rightarrow> nat \<Rightarrow> 'g world \<Rightarrow> error option \<times> 'g world" where
  "sample_loop_h ops pop w result rng 0 h = (None, h)"
| "sample_loop_h ops pop w result rng (Suc k) h =
     (case draw_step_h ops pop w result rng h of
        (Some e, h') \<Rightarrow> (Some e, h')
      | (None, h') \<Rightarrow> sample_loop_h ops pop w result rng k h')"

text \<open>
  \<open>weighted_sample_without_replacement\<close> on the store: \<open>population\<close>,
  \<open>weights\<close> and \<open>rng\<close> are the addresses of the caller's lists and of the
  caller's generator; \<open>pop\<close>, \<open>w\<close> and \<open>result\<close> are new objects (lines 70 to 72).
\<close>

definition weighted_sample_without_replacement_h ::
  "'g rng_ops \<Rightarrow> nat \<Rightarrow> nat \<Rightarrow> int \<Rightarrow> nat \<Rightarrow> 'g world \<Rightarrow> (error + nat) \<times> 'g world" where
  "weighted_sample_without_replacement_h ops population weights k rng h =
     (if k < 0 then (Inl (ValueError ''k must be non-negative''), h)
      else if k > int (length (strs h population)) then
        (Inl (ValueError ''k must be <= population size for sampling without replacement''), h)
      else
        (case new_strs (strs h population) h of (pop, h1) \<Rightarrow>
         case new_nums (nums h1 weights) h1 of (w, h2) \<Rightarrow>
         case new_strs [] h2 of (result, h3) \<Rightarrow>
           (case sample_loop_h ops pop w result rng (nat k) h3 of
              (Some e, h') \<Rightarrow> (Inl e, h')
            | (None, h') \<Rightarrow> (Inr result, h'))))"

text \<open>
  The module's two lists are objects of the store too, at fixed addresses.
  \<open>module_world g\<close> is a store that holds them and, at the address \<open>caller_rng\<close>, a
  generator object of the caller in state \<open>g\<close>.
\<close>

definition PRIZES_ref :: nat where
  "PRIZES_ref = 0"

definition DEFAULT_WEIGHTS_ref :: nat where
  "DEFAULT_WEIGHTS_ref = 1"

definition caller_rng :: nat where
  "caller_rng = 2"

definition module_world :: "'g \<Rightarrow> 'g world" where
  "module_world g =
     \<lparr> strs = (\<lambda>a. [])(PRIZES_ref := PRIZES),
       nums = (\<lambda>a. [])(DEFAULT_WEIGHTS_ref := DEFAULT_WEIGHTS),
       gens = (\<lambda>a. g),
       fresh = 3,
       screen = \<lparr>stdout = [], stderr = []\<rparr> \<rparr>"

text \<open>
  A call of a method of the library on the generator at \<open>rng\<close> (\<open>sample\<close>,
  \<open>choices\<close>, the comprehension over \<open>choice\<close>): it reads its arguments, advances
  the generator and returns a new list. \<open>r\<close> is what the call computes from the state
  of the generator. Where the call raises, the state it leaves the generator in is not
  modelled; in \<open>draw_prizes\<close> the generator is a local object.
\<close>

definition method_h :: "nat \<Rightarrow> error + string list \<times> 'g \<Rightarrow> 'g world \<Rightarrow> (error + nat) \<times> 'g world" where
  "method_h rng r h =
     (case r of
        Inl e \<Rightarrow> (Inl e, h)
      | Inr (xs, g') \<Rightarrow>
          (case new_strs xs (h\<lparr>gens := (gens h)(rng := g')\<rparr>) of (a, h') \<Rightarrow> (Inr a, h')))"

text \<open>
  \<open>draw_prizes\<close> on the store. \<^verbatim>\<open>rng = random.Random(seed)\<close> is a new generator
  object. \<open>weights\<close> is the address of the caller's list, or \<open>None\<close>;
  \<^verbatim>\<open>weights = DEFAULT_WEIGHTS\<close> binds the name to the module's list itself, not to a
  copy.
\<close>

definition draw_prizes_h ::
  "'g rng_ops \<Rightarrow> 'g \<Rightarrow> int \<Rightarrow> bool \<Rightarrow> int option \<Rightarrow> bool \<Rightarrow> nat option \<Rightarrow> 'g world
     \<Rightarrow> (error + nat) \<times> 'g world" where
  "draw_prizes_h ops entropy quantity unique seed tiered weights h =
     (if quantity < 1 then (Inl (ValueError ''quantity must be at least 1''), h)
      else
        (case new_gen (case seed of None \<Rightarrow> entropy | Some s \<Rightarrow> rng_seed ops s) h of (rng, h0) \<Rightarrow>
         let weights = (case weights of None \<Rightarrow> DEFAULT_WEIGHTS_ref | Some a \<Rightarrow> a) in
         if length (nums h0 weights) \<noteq> length (strs h0 PRIZES_ref) then
           (Inl (ValueError ''weights length must match number of prizes''), h0)
         else if unique then
           (if quantity > int (length (strs h0 PRIZES_ref)) then
              (Inl (ValueError (''quantity must be <= '' @ str_nat (length (strs h0 PRIZES_ref))
                      @ '' when drawing unique prizes'')), h0)
            else if tiered then
              weighted_sample_without_replacement_h ops PRIZES_ref weights quantity rng h0
            else method_h rng (sample ops (strs h0 PRIZES_ref) quantity (gens h0 rng)) h0)
         else
           (if tiered then
              method_h rng (choices ops (strs h0 PRIZES_ref) (nums h0 weights) quantity (gens h0 rng)) h0
            else method_h rng (choice_loop ops (strs h0 PRIZES_ref) (nat quantity) (gens h0 rng)) h0)))"

text \<open>
  What a call leaves alone. \<open>lists_unchanged n h h'\<close>: every list that existed
  before the call (the addresses below \<open>n\<close>) has the contents it had, and nothing was
  written to the console. \<open>unchanged_below n h h'\<close>: moreover every generator that
  existed before the call is in the state it was in.
\<close>

definition lists_unchanged :: "nat \<Rightarrow> 'g world \<Rightarrow> 'g world \<Rightarrow> bool" where
  "lists_unchanged n h h' \<longleftrightarrow>
     (\<forall>a<n. strs h' a = strs h a \<and> nums h' a = nums h a) \<and> screen h' = screen h \<and> fresh h \<le> fresh h'"

definition unchanged_below :: "nat \<Rightarrow> 'g world \<Rightarrow> 'g world \<Rightarrow> bool" where
  "unchanged_below n h h' \<longleftrightarrow> lists_unchanged n h h' \<and> (\<forall>a<n. gens h' a = gens h a)"

subsection \<open>A small generator and a reader of integers, for running the model\<close>

text \<open>
  A generator object with sixteen states, to evaluate the model on concrete inputs:
  in state \<open>g\<close> the call \<open>random()\<close> returns \<open>g / 16\<close> and \<open>_randbelow(n)\<close>
  returns \<open>g mod n\<close>. It meets the library contract \<open>rng_ok\<close>. In state 0 the call
  \<open>random()\<close> returns 0.0, which is one of the values that \<open>random()\<close> returns:
  the multiples of \<open>2 ^ -53\<close> in \<open>[0, 1)\<close>.
\<close>

definition demo_next :: "nat \<Rightarrow> nat" where
  "demo_next g = (5 * g + 3) mod 16"

definition demo_rng :: "nat rng_ops" where
  "demo_rng =
     \<lparr> rng_seed = (\<lambda>s. nat (s mod 16)),
       rng_random = (\<lambda>g. (Finite (of_nat (g mod 16) / 16), demo_next g)),
       rng_randbelow = (\<lambda>n g. (g mod n, demo_next g)) \<rparr>"

text \<open>
  Two floats for the examples: \<open>huge\<close> is \<open>2.0 ** 1023\<close>, the largest power of two of
  the format, and \<open>tiny\<close> is \<open>5e-324\<close>, the smallest positive float.
\<close>

definition huge :: double where
  "huge = Finite (2 powi 1023)"


text \<open>
  The built-in \<open>int\<close> on a string: surrounding whitespace, an optional sign, then
  decimal digits, with single underscores allowed between digits; at most 4300 digits.
\<close>

definition is_digit :: "char \<Rightarrow> bool" where
  "is_digit c \<longleftrightarrow> (let n = of_char c :: nat in 48 \<le> n \<and> n \<le> 57)"

fun no_double_underscore :: "string \<Rightarrow> bool" where
  "no_double_underscore (a # b # cs) =
     (\<not> (a = CHR ''_'' \<and> b = CHR ''_'') \<and> no_double_underscore (b # cs))"
| "no_double_underscore cs = True"

definition digits_value :: "string \<Rightarrow> int option" where
  "digits_value s =
     (if s \<noteq> [] \<and> is_digit (hd s) \<and> is_digit (last s) \<and>
         list_all (\<lambda>c. is_digit c \<or> c = CHR ''_'') s \<and> no_double_underscore s \<and>
         length (filter is_digit s) \<le> 4300
      then Some (foldl (\<lambda>acc c. if c = CHR ''_'' then acc else 10 * acc + (int (of_char c) - 48)) 0 s)
      else None)"

definition int_ascii :: "string \<Rightarrow> int option" where
  "int_ascii s =
     (case strip s of
        [] \<Rightarrow> None
      | c # cs \<Rightarrow>
          if c = CHR ''-'' then map_option uminus (digits_value cs)
          else if c = CHR ''+'' then digits_value cs
          else digits_value (c # cs))"

section \<open>Properties\<close>

subsection \<open>The unit in the last place\<close>

lemma ulp_search_range: "q \<le> ulp_search n q a \<and> ulp_search n q a \<le> q + int n"
proof (induction n arbitrary: q)
  case 0
  then show ?case by simp
next
  case (Suc n)
  from Suc.IH [of "q + 1"] show ?case by auto
qed

lemma ulp_search_least:
  "q \<le> q' \<Longrightarrow> q' \<le> q + int n \<Longrightarrow> a < 2 powi (q' + 53) \<Longrightarrow> ulp_search n q a \<le> q'"
proof (induction n arbitrary: q)
  case 0
  then show ?case by simp
next
  case (Suc n)
  show ?case
  proof (cases "a < 2 powi (q + 53)")
    case True
    with Suc.prems show ?thesis by simp
  next
    case False
    with Suc.prems have "q \<noteq> q'" by auto
    with Suc.prems have "q + 1 \<le> q'" "q' \<le> q + 1 + int n" by simp_all
    from Suc.IH [OF this Suc.prems(3)] False show ?thesis by simp
  qed
qed

lemma ulp_search_upper:
  "ulp_search n q a < q + int n \<Longrightarrow> a < 2 powi (ulp_search n q a + 53)"
proof (induction n arbitrary: q)
  case 0
  then show ?case by simp
next
  case (Suc n)
  show ?case
  proof (cases "a < 2 powi (q + 53)")
    case True
    then show ?thesis by simp
  next
    case False
    with Suc.prems have "ulp_search n (q + 1) a < q + 1 + int n" by simp
    from Suc.IH [OF this] False show ?thesis by simp
  qed
qed

lemma ulp_search_lower:
  "q < ulp_search n q a \<Longrightarrow> 2 powi (ulp_search n q a + 52) \<le> a"
proof (induction n arbitrary: q)
  case 0
  then show ?case by simp
next
  case (Suc n)
  show ?case
  proof (cases "a < 2 powi (q + 53)")
    case True
    with Suc.prems show ?thesis by simp
  next
    case False
    then have eq: "ulp_search (Suc n) q a = ulp_search n (q + 1) a" by simp
    show ?thesis
    proof (cases "q + 1 < ulp_search n (q + 1) a")
      case True
      from Suc.IH [OF this] eq show ?thesis by simp
    next
      case False
      with ulp_search_range [of "q + 1" n a] have "ulp_search n (q + 1) a = q + 1" by simp
      with eq \<open>\<not> a < 2 powi (q + 53)\<close> show ?thesis by (simp add: add.commute)
    qed
  qed
qed

lemma ulp_exp_range: "- 1074 \<le> ulp_exp a \<and> ulp_exp a \<le> 972"
  using ulp_search_range [of "- 1074" 2046 a] by (simp add: ulp_exp_def)

lemma ulp_exp_least:
  "- 1074 \<le> q \<Longrightarrow> q \<le> 972 \<Longrightarrow> a < 2 powi (q + 53) \<Longrightarrow> ulp_exp a \<le> q"
  using ulp_search_least [of "- 1074" q 2046 a] by (simp add: ulp_exp_def)

lemma ulp_exp_upper: "ulp_exp a \<le> 971 \<Longrightarrow> a < 2 powi (ulp_exp a + 53)"
  using ulp_search_upper [of 2046 "- 1074" a] by (simp add: ulp_exp_def)

lemma ulp_exp_lower: "- 1074 < ulp_exp a \<Longrightarrow> 2 powi (ulp_exp a + 52) \<le> a"
  using ulp_search_lower [of "- 1074" 2046 a] by (simp add: ulp_exp_def)

lemma pow2_pos: "0 < (2::rat) powi q"
  by simp

lemma pow2_mono: "p \<le> q \<Longrightarrow> (2::rat) powi p \<le> 2 powi q"
  by (rule power_int_increasing) simp_all

lemma pow2_strict_mono: "p < q \<Longrightarrow> (2::rat) powi p < 2 powi q"
  by (rule power_int_strict_increasing) simp_all

lemma pow2_diff: "(2::rat) powi p / 2 powi q = 2 powi (p - q)"
  by (simp add: power_int_diff)

lemma pow2_add: "(2::rat) powi p * 2 powi q = 2 powi (p + q)"
  by (simp add: power_int_add)

lemma pow2_int: "0 \<le> q \<Longrightarrow> \<exists>k::int. (2::rat) powi q = of_int k"
proof -
  assume "0 \<le> q"
  then have "(2::rat) powi q = of_int (2 ^ nat q)" by (simp add: power_int_nonneg_exp)
  then show ?thesis by blast
qed

lemma scaled_le: "a \<le> b \<Longrightarrow> a / (2::rat) powi q \<le> b / 2 powi q"
  by (simp add: divide_right_mono)

lemma scaled_less: "a < b \<Longrightarrow> a / (2::rat) powi q < b / 2 powi q"
  by (simp add: divide_strict_right_mono)

lemma unscale: "a / (2::rat) powi q * 2 powi q = a"
  by simp

lemma rescale: "a * (2::rat) powi q / 2 powi q' = a * 2 powi (q - q')"
  by (simp add: pow2_diff [symmetric])

lemma ulp_exp_below_overflow: "a < overflow_bound \<Longrightarrow> ulp_exp a \<le> 971"
proof -
  assume "a < overflow_bound"
  then have "a < 2 powi (971 + 53)" by (simp only: overflow_bound_def) simp
  then show ?thesis by (rule ulp_exp_least [rotated 2]) simp_all
qed

lemma below_overflow: "q \<le> 971 \<Longrightarrow> (2::rat) powi (q + 53) \<le> overflow_bound"
  unfolding overflow_bound_def by (rule pow2_mono) simp

lemma round_even_of_int: "round_even (of_int k) = k"
  by (simp add: round_even_def)

lemma round_even_lower: "\<lfloor>s\<rfloor> \<le> round_even s"
  by (simp add: round_even_def Let_def)

lemma round_even_upper: "s \<le> of_int t \<Longrightarrow> round_even s \<le> t"
proof -
  assume st: "s \<le> of_int t"
  show ?thesis
  proof (cases "of_int \<lfloor>s\<rfloor> = s")
    case True
    have "round_even s = round_even (of_int \<lfloor>s\<rfloor>)"
      by (rule arg_cong [OF True [symmetric]])
    then have r: "round_even s = \<lfloor>s\<rfloor>" by (simp only: round_even_of_int)
    from st have "\<lfloor>s\<rfloor> \<le> \<lfloor>(of_int t :: rat)\<rfloor>" by (rule floor_mono)
    then have "\<lfloor>s\<rfloor> \<le> t" by simp
    with r show ?thesis by simp
  next
    case False
    then have "of_int \<lfloor>s\<rfloor> < s" by (simp add: less_le)
    with st have "of_int \<lfloor>s\<rfloor> < (of_int t :: rat)" by simp
    then have "\<lfloor>s\<rfloor> < t" by simp
    moreover have "round_even s \<le> \<lfloor>s\<rfloor> + 1" by (simp add: round_even_def Let_def)
    ultimately show ?thesis by simp
  qed
qed

lemma round_even_above: "of_int k \<le> s \<Longrightarrow> k \<le> round_even s"
proof -
  assume "of_int k \<le> s"
  then have "k \<le> \<lfloor>s\<rfloor>" by (simp only: le_floor_iff)
  moreover have "\<lfloor>s\<rfloor> \<le> round_even s" by (rule round_even_lower)
  ultimately show ?thesis by (rule order_trans)
qed

lemma round_even_nonneg: "0 \<le> s \<Longrightarrow> 0 \<le> round_even s"
  using round_even_above [of 0 s] by simp

lemma representable_iff:
  "representable a \<longleftrightarrow> a < overflow_bound \<and> (\<exists>k::int. a = of_int k * 2 powi ulp_exp a)"
proof -
  have "(of_int \<lfloor>a / 2 powi ulp_exp a\<rfloor> = a / 2 powi ulp_exp a) \<longleftrightarrow>
        (\<exists>k::int. a = of_int k * 2 powi ulp_exp a)"
  proof
    assume "of_int \<lfloor>a / 2 powi ulp_exp a\<rfloor> = a / 2 powi ulp_exp a"
    then have "a = of_int \<lfloor>a / 2 powi ulp_exp a\<rfloor> * 2 powi ulp_exp a"
      by (metis unscale)
    then show "\<exists>k::int. a = of_int k * 2 powi ulp_exp a" ..
  next
    assume "\<exists>k::int. a = of_int k * 2 powi ulp_exp a"
    then obtain k :: int where "a = of_int k * 2 powi ulp_exp a" ..
    then have "a / 2 powi ulp_exp a = of_int k" by (metis nonzero_mult_div_cancel_right pow2_pos less_irrefl)
    then show "of_int \<lfloor>a / 2 powi ulp_exp a\<rfloor> = a / 2 powi ulp_exp a" by simp
  qed
  then show ?thesis by (simp only: representable_def Let_def)
qed

lemma on_grid:
  assumes "q' \<le> q"
  shows "\<exists>k::int. of_int n * (2::rat) powi q = of_int k * 2 powi q'"
proof -
  from assms have "0 \<le> q - q'" by simp
  from pow2_int [OF this] obtain j :: int where j: "(2::rat) powi (q - q') = of_int j" ..
  have "of_int n * (2::rat) powi q = of_int n * (2 powi (q - q') * 2 powi q')"
    by (simp only: pow2_add) simp
  also have "\<dots> = of_int (n * j) * 2 powi q'" by (simp only: j) simp
  finally show ?thesis ..
qed

subsection \<open>Rounding of positive numbers\<close>

lemma overflow_bound_pos: "0 < overflow_bound"
  by (simp only: overflow_bound_def pow2_pos)

lemma round_pos_exact:
  assumes "representable a"
  shows "round_pos a = Finite a"
proof -
  from assms obtain k :: int where lt: "a < overflow_bound" and k: "a = of_int k * 2 powi ulp_exp a"
    by (auto simp only: representable_iff)
  from k have "a / 2 powi ulp_exp a = of_int k"
    by (metis nonzero_mult_div_cancel_right pow2_pos less_irrefl)
  then have "round_even (a / 2 powi ulp_exp a) = k" by (simp only: round_even_of_int)
  with k have "of_int (round_even (a / 2 powi ulp_exp a)) * 2 powi ulp_exp a = a" by simp
  moreover from lt have "\<not> overflow_bound \<le> a" by simp
  ultimately show ?thesis by (simp add: round_pos_def Let_def)
qed

lemma round_pos_overflow:
  assumes "overflow_bound \<le> a"
  shows "round_pos a = PInf"
proof -
  let ?q = "ulp_exp a"
  have q: "?q = 972"
  proof (rule ccontr)
    assume "?q \<noteq> 972"
    with ulp_exp_range [of a] have le: "?q \<le> 971" by simp
    from ulp_exp_upper [OF le] have "a < 2 powi (?q + 53)" .
    also from le have "(2::rat) powi (?q + 53) \<le> overflow_bound" by (rule below_overflow)
    finally show False using assms by simp
  qed
  have "of_int (2 ^ 52) = (2::rat) powi (1024 - 972)" by simp
  also have "\<dots> = overflow_bound / 2 powi 972" by (simp only: overflow_bound_def pow2_diff)
  also have "\<dots> \<le> a / 2 powi 972" using assms by (rule scaled_le)
  finally have "2 ^ 52 \<le> round_even (a / 2 powi 972)" by (rule round_even_above)
  then have "(of_int (2 ^ 52) :: rat) \<le> of_int (round_even (a / 2 powi 972))"
    by (simp only: of_int_le_iff)
  then have "(of_int (2 ^ 52) :: rat) * 2 powi 972 \<le> of_int (round_even (a / 2 powi 972)) * 2 powi 972"
    by (rule mult_right_mono) simp
  moreover have "(of_int (2 ^ 52) :: rat) * 2 powi 972 = overflow_bound"
  proof -
    have "(of_int (2 ^ 52) :: rat) = 2 powi 52" by simp
    then have "(of_int (2 ^ 52) :: rat) * 2 powi 972 = 2 powi (52 + 972)" by (simp only: pow2_add)
    then show ?thesis by (simp only: overflow_bound_def) simp
  qed
  ultimately have "overflow_bound \<le> of_int (round_even (a / 2 powi 972)) * (2::rat) powi 972"
    by simp
  with q show ?thesis by (simp add: round_pos_def Let_def)
qed

lemma round_pos_le:
  assumes a: "0 \<le> a" "a \<le> t" and t: "representable t"
  shows "\<exists>v. round_pos a = Finite v \<and> 0 \<le> v \<and> v \<le> t"
proof -
  let ?q = "ulp_exp a" and ?qt = "ulp_exp t"
  from t obtain k :: int where tlt: "t < overflow_bound" and k: "t = of_int k * 2 powi ?qt"
    by (auto simp only: representable_iff)
  have qt: "?qt \<le> 971" using tlt by (rule ulp_exp_below_overflow)
  from ulp_exp_upper [OF qt] a have aq: "a < 2 powi (?qt + 53)" by simp
  from ulp_exp_range [of t] have "- 1074 \<le> ?qt" "?qt \<le> 972" by simp_all
  from ulp_exp_least [OF this aq] have qle: "?q \<le> ?qt" .
  from on_grid [OF qle, of k] k obtain k' :: int where k': "t = of_int k' * 2 powi ?q" by auto
  then have tk: "t / 2 powi ?q = of_int k'"
    by (metis nonzero_mult_div_cancel_right pow2_pos less_irrefl)
  from a have "a / 2 powi ?q \<le> t / 2 powi ?q" by (intro scaled_le)
  with tk have "round_even (a / 2 powi ?q) \<le> k'" by (intro round_even_upper) simp
  then have "(of_int (round_even (a / 2 powi ?q)) :: rat) \<le> of_int k'" by (simp only: of_int_le_iff)
  then have "of_int (round_even (a / 2 powi ?q)) * (2::rat) powi ?q \<le> of_int k' * 2 powi ?q"
    by (rule mult_right_mono) simp
  with k' have vle: "of_int (round_even (a / 2 powi ?q)) * (2::rat) powi ?q \<le> t" by simp
  from a have "0 \<le> a / 2 powi ?q" by simp
  then have "0 \<le> round_even (a / 2 powi ?q)" by (rule round_even_nonneg)
  then have vge: "0 \<le> of_int (round_even (a / 2 powi ?q)) * (2::rat) powi ?q" by simp
  from vle tlt have "\<not> overflow_bound \<le> of_int (round_even (a / 2 powi ?q)) * (2::rat) powi ?q"
    by simp
  then have "round_pos a = Finite (of_int (round_even (a / 2 powi ?q)) * 2 powi ?q)"
    by (simp add: round_pos_def Let_def)
  with vle vge show ?thesis by blast
qed

lemma round_pos_representable:
  assumes a: "0 \<le> a" and r: "round_pos a = Finite v"
  shows "0 \<le> v \<and> representable v"
proof -
  let ?q = "ulp_exp a"
  let ?n = "round_even (a / 2 powi ?q)"
  from r have small: "\<not> overflow_bound \<le> of_int ?n * 2 powi ?q"
    and v: "v = of_int ?n * 2 powi ?q"
    by (auto simp: round_pos_def Let_def split: if_splits)
  from a have "0 \<le> a / 2 powi ?q" by simp
  then have n0: "0 \<le> ?n" by (rule round_even_nonneg)
  then have v0: "0 \<le> v" by (simp add: v)
  have q971: "?q \<le> 971"
  proof (rule ccontr)
    assume "\<not> ?q \<le> 971"
    with ulp_exp_range [of a] have q: "?q = 972" by simp
    then have "- 1074 < ?q" by simp
    from ulp_exp_lower [OF this] q have "2 powi 1024 \<le> a" by simp
    then have "overflow_bound \<le> a" by (simp only: overflow_bound_def)
    from round_pos_overflow [OF this] r show False by simp
  qed
  from ulp_exp_upper [OF q971] have "a < 2 powi (?q + 53)" .
  then have "a / 2 powi ?q < 2 powi (?q + 53) / 2 powi ?q" by (rule scaled_less)
  also have "(2::rat) powi (?q + 53) / 2 powi ?q = of_int (2 ^ 53)"
    by (simp only: pow2_diff) simp
  finally have "a / 2 powi ?q \<le> of_int (2 ^ 53)" by simp
  then have nle: "?n \<le> 2 ^ 53" by (rule round_even_upper)
  then have "(of_int ?n :: rat) \<le> of_int (2 ^ 53)" by (simp only: of_int_le_iff)
  then have "of_int ?n * (2::rat) powi ?q \<le> of_int (2 ^ 53) * 2 powi ?q"
    by (rule mult_right_mono) simp
  also have "(of_int (2 ^ 53) :: rat) * 2 powi ?q = 2 powi (?q + 53)"
  proof -
    have "(of_int (2 ^ 53) :: rat) = 2 powi 53" by simp
    then show ?thesis by (simp only: pow2_add add.commute)
  qed
  also have "(2::rat) powi (?q + 53) < 2 powi (?q + 1 + 53)" by (rule pow2_strict_mono) simp
  finally have vlt: "v < 2 powi (?q + 1 + 53)" by (simp only: v)
  from ulp_exp_range [of a] q971 have "- 1074 \<le> ?q + 1" "?q + 1 \<le> 972" by simp_all
  from ulp_exp_least [OF this vlt] have qv: "ulp_exp v \<le> ?q + 1" .
  have "\<exists>k::int. v = of_int k * 2 powi ulp_exp v"
  proof (cases "ulp_exp v \<le> ?q")
    case True
    from on_grid [OF this, of ?n] show ?thesis by (simp only: v)
  next
    case False
    with qv have eq: "ulp_exp v = ?q + 1" by simp
    with ulp_exp_range [of a] have "- 1074 < ulp_exp v" by simp
    from ulp_exp_lower [OF this] have "2 powi (ulp_exp v + 52) \<le> v" .
    moreover from eq have "ulp_exp v + 52 = ?q + 53" by simp
    ultimately have "2 powi (?q + 53) \<le> v" by metis
    then have "2 powi (?q + 53) \<le> of_int ?n * (2::rat) powi ?q" by (simp only: v)
    then have "2 powi (?q + 53) / 2 powi ?q \<le> of_int ?n * (2::rat) powi ?q / 2 powi ?q"
      by (rule scaled_le)
    then have "(of_int (2 ^ 53) :: rat) \<le> of_int ?n" by (simp only: pow2_diff) simp
    then have "2 ^ 53 \<le> ?n" by (simp only: of_int_le_iff)
    with nle have n: "?n = 2 ^ 53" by simp
    have "v = of_int (2 ^ 53) * 2 powi ?q" by (simp only: v n)
    also have "\<dots> = 2 powi 53 * 2 powi ?q" by simp
    also have "\<dots> = 2 powi 52 * 2 powi (?q + 1)" by (simp only: pow2_add) simp
    also have "\<dots> = of_int (2 ^ 52) * 2 powi ulp_exp v" by (simp only: eq) simp
    finally show ?thesis ..
  qed
  moreover from small have "v < overflow_bound" by (simp only: v not_le)
  ultimately have "representable v" by (simp only: representable_iff)
  with v0 show ?thesis ..
qed

subsection \<open>Rounding\<close>

lemma round_double_zero: "round_double 0 = Finite 0"
  by (simp add: round_double_def)

lemma representable_zero: "representable 0"
  by (simp add: representable_def overflow_bound_pos)

lemma round_double_exact:
  assumes "is_double (Finite a)"
  shows "round_double a = Finite a"
proof -
  from assms have r: "representable \<bar>a\<bar>" by (simp add: is_double_def)
  consider "a = 0" | "0 < a" | "a < 0" by linarith
  then show ?thesis
  proof cases
    case 1
    then show ?thesis by (simp add: round_double_def)
  next
    case 2
    with r have "round_pos a = Finite a" by (simp add: round_pos_exact)
    with 2 show ?thesis by (simp add: round_double_def)
  next
    case 3
    with r have "round_pos (- a) = Finite (- a)" by (simp add: round_pos_exact)
    with 3 show ?thesis by (simp add: round_double_def)
  qed
qed

lemma is_double_round: "is_double (round_double x)"
proof -
  consider "x = 0" | "0 < x" | "x < 0" by linarith
  then show ?thesis
  proof cases
    case 1
    then show ?thesis by (simp add: round_double_def is_double_def representable_zero)
  next
    case 2
    then have x: "0 \<le> x" by simp
    show ?thesis
    proof (cases "round_pos x")
      case (Finite v)
      from round_pos_representable [OF x Finite] Finite 2 show ?thesis
        by (simp add: round_double_def is_double_def)
    qed (use 2 in \<open>simp_all add: round_double_def is_double_def\<close>)
  next
    case 3
    then have x: "0 \<le> - x" by simp
    show ?thesis
    proof (cases "round_pos (- x)")
      case (Finite v)
      from round_pos_representable [OF x Finite] Finite 3 show ?thesis
        by (simp add: round_double_def is_double_def)
    qed (use 3 in \<open>simp_all add: round_double_def is_double_def\<close>)
  qed
qed

lemma round_double_le:
  assumes x: "0 \<le> x" "x \<le> t" and t: "is_double (Finite t)"
  shows "\<exists>v. round_double x = Finite v \<and> 0 \<le> v \<and> v \<le> t"
proof (cases "x = 0")
  case True
  with x show ?thesis by (auto simp: round_double_zero)
next
  case False
  with x have pos: "0 < x" "0 \<le> t" by simp_all
  with t have "representable t" by (simp add: is_double_def)
  from round_pos_le [OF x this] pos show ?thesis by (simp add: round_double_def)
qed


lemma is_double_dyadic:
  assumes m: "\<bar>m\<bar> < 2 ^ 53" and e: "- 1074 \<le> e" "e \<le> 971"
  shows "is_double (Finite (of_int m * 2 powi e))"
proof -
  let ?a = "\<bar>of_int m * (2::rat) powi e\<bar>"
  have a: "?a = of_int \<bar>m\<bar> * 2 powi e" by (simp add: abs_mult)
  from m have "(of_int \<bar>m\<bar> :: rat) < of_int (2 ^ 53)" by (simp only: of_int_less_iff)
  also have "(of_int (2 ^ 53) :: rat) = 2 powi 53" by simp
  finally have m': "(of_int \<bar>m\<bar> :: rat) < 2 powi 53" .
  have "of_int \<bar>m\<bar> * (2::rat) powi e < 2 powi 53 * 2 powi e"
    using m' pow2_pos [of e] by (rule mult_strict_right_mono)
  also have "(2::rat) powi 53 * 2 powi e = 2 powi (e + 53)"
    by (simp only: pow2_add add.commute)
  finally have lt: "?a < 2 powi (e + 53)" by (simp only: a)
  from e have "e \<le> 972" by simp
  from ulp_exp_least [OF e(1) this lt] have q: "ulp_exp ?a \<le> e" .
  from on_grid [OF q, of "\<bar>m\<bar>"] have "\<exists>k::int. ?a = of_int k * 2 powi ulp_exp ?a"
    by (simp only: a)
  moreover from lt below_overflow [OF e(2)] have "?a < overflow_bound" by simp
  ultimately have "representable ?a" by (simp only: representable_iff)
  then show ?thesis by (simp add: is_double_def)
qed

lemma is_double_of_int: "\<bar>m\<bar> < 2 ^ 53 \<Longrightarrow> is_double (Finite (of_int m))"
  using is_double_dyadic [of m 0] by simp

subsection \<open>Float operations\<close>

lemma is_double_zero: "is_double (Finite 0)"
  by (simp add: is_double_def representable_zero)

lemma is_double_fadd: "is_double (fadd x y)"
  by (cases x; cases y) (simp_all add: is_double_round, simp_all add: is_double_def)

lemma is_double_fmul: "is_double (fmul x y)"
  by (cases x; cases y) (simp_all add: is_double_round, simp_all add: is_double_def)

lemma fadd_zero_right: "is_double x \<Longrightarrow> fadd x (Finite 0) = x"
  by (cases x) (simp_all add: round_double_exact)

lemma fadd_zero_left: "is_double x \<Longrightarrow> fadd (Finite 0) x = x"
  by (cases x) (simp_all add: round_double_exact)

lemma is_double_foldl: "is_double c \<Longrightarrow> is_double (foldl fadd c w)"
  by (induction w arbitrary: c) (simp_all add: is_double_fadd)

lemma is_double_py_sum: "is_double (py_sum w)"
  by (simp add: py_sum_def is_double_foldl is_double_zero)

lemma py_sum_Nil: "py_sum [] = Finite 0"
  by (simp add: py_sum_def)

lemma fmul_unit_le:
  assumes u: "unit_float u" and t: "is_double (Finite t)" and pos: "0 < t"
  shows "\<exists>v. fmul u (Finite t) = Finite v \<and> 0 \<le> v \<and> v \<le> t"
proof -
  from u obtain a where a: "u = Finite a" "0 \<le> a" "a < 1"
    by (cases u) (simp_all add: unit_float_def)
  from a pos have "0 \<le> a * t" "a * t \<le> t" by (simp_all add: mult_left_le_one_le)
  from round_double_le [OF this t] a show ?thesis by simp
qed

lemma fmul_one: "is_double (Finite u) \<Longrightarrow> fmul (Finite u) (Finite 1) = Finite u"
  by (simp add: round_double_exact)

lemma fadd_int:
  assumes "\<bar>m + n\<bar> < 2 ^ 53"
  shows "fadd (Finite (of_int m)) (Finite (of_int n)) = Finite (of_int (m + n))"
proof -
  from assms have "is_double (Finite (of_int (m + n)))" by (rule is_double_of_int)
  then have "round_double (of_int (m + n)) = Finite (of_int (m + n))" by (rule round_double_exact)
  then show ?thesis by simp
qed

lemma fle_zero_cases:
  "fle x (Finite 0) \<longleftrightarrow> x = NInf \<or> (\<exists>a. x = Finite a \<and> a \<le> 0)"
  by (cases x) simp_all

lemma not_fle_zero_finite:
  "\<not> fle x (Finite 0) \<Longrightarrow> isfinite x \<Longrightarrow> \<exists>t. x = Finite t \<and> 0 < t"
  by (cases x) simp_all

subsection \<open>List and scan lemmas\<close>

lemma pop_at_in_range: "i < length xs \<Longrightarrow> pop_at xs i = Inr (xs ! i, take i xs @ drop (Suc i) xs)"
  by (auto simp: pop_at_def)

lemma pop_at_Inr:
  "pop_at xs i = Inr (x, xs') \<Longrightarrow> i < length xs \<and> x = xs ! i \<and> xs' = take i xs @ drop (Suc i) xs"
  by (auto simp: pop_at_def split: if_splits)

lemma mset_remove_nth:
  "i < length xs \<Longrightarrow> add_mset (xs ! i) (mset (take i xs @ drop (Suc i) xs)) = mset xs"
proof -
  assume "i < length xs"
  then have "xs = take i xs @ xs ! i # drop (Suc i) xs" by (rule id_take_nth_drop)
  then have "mset xs = mset (take i xs @ xs ! i # drop (Suc i) xs)" by simp
  then show ?thesis by simp
qed

text \<open>
  The running sum after the weight at position \<open>m\<close> is the sum of the first \<open>m + 1\<close>
  weights, added from left to right.
\<close>

lemma scan_Some:
  "scan r cum i ws = Some j \<Longrightarrow>
     i \<le> j \<and> j - i < length ws \<and> fle r (foldl fadd cum (take (Suc (j - i)) ws)) \<and>
     (\<forall>m < j - i. \<not> fle r (foldl fadd cum (take (Suc m) ws)))"
proof (induction ws arbitrary: cum i)
  case Nil
  then show ?case by simp
next
  case (Cons wi ws)
  show ?case
  proof (cases "fle r (fadd cum wi)")
    case True
    with Cons.prems show ?thesis by simp
  next
    case False
    with Cons.prems have rec: "scan r (fadd cum wi) (Suc i) ws = Some j" by simp
    note ih = Cons.IH [OF rec]
    from ih have le: "Suc i \<le> j" by simp
    then have eq: "j - i = Suc (j - Suc i)" by simp
    have reach: "fle r (foldl fadd cum (take (Suc (j - i)) (wi # ws)))"
      using ih by (simp add: eq)
    have before: "\<not> fle r (foldl fadd cum (take (Suc m) (wi # ws)))" if "m < j - i" for m
    proof (cases m)
      case 0
      with False show ?thesis by simp
    next
      case (Suc m')
      with that eq have "m' < j - Suc i" by simp
      with ih have "\<not> fle r (foldl fadd (fadd cum wi) (take (Suc m') ws))" by simp
      with Suc show ?thesis by simp
    qed
    from le ih reach before show ?thesis by (simp add: eq)
  qed
qed

lemma scan_None:
  "scan r cum i ws = None \<Longrightarrow> \<forall>m < length ws. \<not> fle r (foldl fadd cum (take (Suc m) ws))"
proof (induction ws arbitrary: cum i)
  case Nil
  then show ?case by simp
next
  case (Cons wi ws)
  from Cons.prems have nf: "\<not> fle r (fadd cum wi)"
    and rec: "scan r (fadd cum wi) (Suc i) ws = None"
    by (simp_all add: Let_def split: if_splits)
  show ?case
  proof (intro allI impI)
    fix m assume m: "m < length (wi # ws)"
    show "\<not> fle r (foldl fadd cum (take (Suc m) (wi # ws)))"
    proof (cases m)
      case 0
      with nf show ?thesis by simp
    next
      case (Suc m')
      with m have "m' < length ws" by simp
      with Cons.IH [OF rec] have "\<not> fle r (foldl fadd (fadd cum wi) (take (Suc m') ws))" by simp
      with Suc show ?thesis by simp
    qed
  qed
qed


lemma py_sum_take: "foldl fadd (Finite 0) (take n w) = py_sum (take n w)"
  by (simp add: py_sum_def)

lemma rng_random_unit: "rng_ok ops \<Longrightarrow> rng_random ops g = (u, g') \<Longrightarrow> unit_float u"
  by (metis fst_conv rng_ok_def)

lemma rng_randbelow_range:
  "rng_ok ops \<Longrightarrow> 0 < n \<Longrightarrow> rng_randbelow ops n g = (j, g') \<Longrightarrow> j < n"
  by (metis fst_conv rng_ok_def)

subsection \<open>One step of the weighted sampler\<close>

lemma draw_step_weighted:
  assumes len: "length pop = length w" and nb: "\<not> fle (py_sum w) (Finite 0)"
    and rnd: "rng_random ops g = (u, g')"
  shows "(\<exists>i<length w.
            fle (fmul u (py_sum w)) (py_sum (take (Suc i) w)) \<and>
            (\<forall>j<i. \<not> fle (fmul u (py_sum w)) (py_sum (take (Suc j) w))) \<and>
            draw_step ops (pop, w, result, g) =
              Inr (take i pop @ drop (Suc i) pop, take i w @ drop (Suc i) w, result @ [pop ! i], g')) \<or>
         ((\<forall>i<length w. \<not> fle (fmul u (py_sum w)) (py_sum (take (Suc i) w))) \<and>
          draw_step ops (pop, w, result, g) = Inr (pop, w, result, g'))"
proof (cases "scan (fmul u (py_sum w)) (Finite 0) 0 w")
  case None
  from scan_None [OF None] have "\<forall>i<length w. \<not> fle (fmul u (py_sum w)) (py_sum (take (Suc i) w))"
    by (simp add: py_sum_def)
  moreover have "draw_step ops (pop, w, result, g) = Inr (pop, w, result, g')"
    using nb rnd None by (simp add: draw_step_def)
  ultimately show ?thesis by blast
next
  case (Some i)
  from scan_Some [OF Some] have i: "i < length w"
    and reach: "fle (fmul u (py_sum w)) (py_sum (take (Suc i) w))"
    and first: "\<forall>j<i. \<not> fle (fmul u (py_sum w)) (py_sum (take (Suc j) w))"
    by (simp_all add: py_sum_def)
  from i len have ip: "i < length pop" by simp
  have "draw_step ops (pop, w, result, g) =
          Inr (take i pop @ drop (Suc i) pop, take i w @ drop (Suc i) w, result @ [pop ! i], g')"
    using nb rnd Some by (simp add: draw_step_def pop_at_in_range [OF i] pop_at_in_range [OF ip])
  with i reach first show ?thesis by blast
qed

text \<open>With a finite total a category is always found.\<close>

lemma draw_step_weighted_finite:
  assumes ok: "rng_ok ops" and len: "length pop = length w"
    and nb: "\<not> fle (py_sum w) (Finite 0)" and fin: "isfinite (py_sum w)"
    and rnd: "rng_random ops g = (u, g')"
  shows "\<exists>t v. py_sum w = Finite t \<and> 0 < t \<and> fmul u (py_sum w) = Finite v \<and> 0 \<le> v \<and> v \<le> t \<and>
           (\<exists>i<length w.
              fle (Finite v) (py_sum (take (Suc i) w)) \<and>
              (\<forall>j<i. \<not> fle (Finite v) (py_sum (take (Suc j) w))) \<and>
              draw_step ops (pop, w, result, g) =
                Inr (take i pop @ drop (Suc i) pop, take i w @ drop (Suc i) w, result @ [pop ! i], g'))"
proof -
  from not_fle_zero_finite [OF nb fin] obtain t where t: "py_sum w = Finite t" "0 < t" by blast
  from is_double_py_sum [of w] t have dt: "is_double (Finite t)" by simp
  from rng_random_unit [OF ok rnd] have "unit_float u" .
  from fmul_unit_le [OF this dt t(2)] obtain v
    where v: "fmul u (Finite t) = Finite v" "0 \<le> v" "v \<le> t" by blast
  from t have ne: "w \<noteq> []" by (auto simp: py_sum_def)
  then have full: "take (Suc (length w - 1)) w = w" by (cases w) simp_all
  from ne have last: "length w - 1 < length w" by (cases w) simp_all
  have "fle (fmul u (py_sum w)) (py_sum (take (Suc (length w - 1)) w))"
    using t v by (simp add: full)
  with last have ex: "\<not> (\<forall>i<length w. \<not> fle (fmul u (py_sum w)) (py_sum (take (Suc i) w)))"
    by blast
  from draw_step_weighted [OF len nb rnd, of result] ex t v show ?thesis by auto
qed

lemma draw_step_fallback:
  assumes ok: "rng_ok ops" and len: "length pop = length w" and ne: "pop \<noteq> []"
    and nonpos: "fle (py_sum w) (Finite 0)" and rnd: "rng_randbelow ops (length pop) g = (idx, g')"
  shows "idx < length pop \<and>
         draw_step ops (pop, w, result, g) =
           Inr (take idx pop @ drop (Suc idx) pop, take idx w @ drop (Suc idx) w,
                result @ [pop ! idx], g')"
proof -
  from ne have "0 < length pop" by simp
  from rng_randbelow_range [OF ok this rnd] have i: "idx < length pop" .
  with len have iw: "idx < length w" by simp
  from ne nonpos rnd show ?thesis
    by (simp add: i draw_step_def randrange_def pop_at_in_range [OF i] pop_at_in_range [OF iw])
qed

text \<open>A step never raises: it removes one category or, running off the end, none.\<close>

lemma draw_step_ok:
  assumes ok: "rng_ok ops" and len: "length pop = length w" and ne: "pop \<noteq> []"
  shows "\<exists>g'. (\<exists>i<length pop.
                 draw_step ops (pop, w, result, g) =
                   Inr (take i pop @ drop (Suc i) pop, take i w @ drop (Suc i) w,
                        result @ [pop ! i], g')) \<or>
               (\<not> fle (py_sum w) (Finite 0) \<and> \<not> isfinite (py_sum w) \<and>
                draw_step ops (pop, w, result, g) = Inr (pop, w, result, g'))"
proof (cases "fle (py_sum w) (Finite 0)")
  case True
  obtain idx g' where "rng_randbelow ops (length pop) g = (idx, g')"
    by (cases "rng_randbelow ops (length pop) g")
  from draw_step_fallback [OF ok len ne True this] show ?thesis by blast
next
  case False
  obtain u g' where rnd: "rng_random ops g = (u, g')" by (cases "rng_random ops g")
  show ?thesis
  proof (cases "isfinite (py_sum w)")
    case True
    from draw_step_weighted_finite [OF ok len False True rnd, of result] len show ?thesis
      by auto
  next
    case nf: False
    from draw_step_weighted [OF len False rnd, of result] len False nf show ?thesis by auto
  qed
qed

lemma subseq_remove_nth: "i < length xs \<Longrightarrow> subseq (take i xs @ drop (Suc i) xs) xs"
proof -
  assume "i < length xs"
  then have xs: "xs = take i xs @ xs ! i # drop (Suc i) xs" by (rule id_take_nth_drop)
  have "subseq (take i xs @ drop (Suc i) xs) (take i xs @ xs ! i # drop (Suc i) xs)"
    by (simp only: subseq_append') (rule list_emb_Cons, rule subseq_order.refl)
  with xs show ?thesis by simp
qed

text \<open>
  The loop: it returns, with at most \<open>k\<close> new entries, which together with what is
  left of \<open>pop\<close> are the old \<open>pop\<close>.
\<close>

lemma sample_loop_ok:
  assumes ok: "rng_ok ops"
  shows "length pop = length w \<Longrightarrow> k \<le> length pop \<Longrightarrow>
         \<exists>pop' w' xs g'. sample_loop ops k (pop, w, result, g) = Inr (pop', w', result @ xs, g') \<and>
           length xs \<le> k \<and> length pop' = length w' \<and> mset xs + mset pop' = mset pop \<and>
           subseq w' w"
proof (induction k arbitrary: pop w result g)
  case 0
  then show ?case by simp
next
  case (Suc k)
  from Suc.prems have ne: "pop \<noteq> []" by auto
  from draw_step_ok [OF ok Suc.prems(1) ne, of result g] obtain g1
    where "(\<exists>i<length pop.
                 draw_step ops (pop, w, result, g) =
                   Inr (take i pop @ drop (Suc i) pop, take i w @ drop (Suc i) w,
                        result @ [pop ! i], g1)) \<or>
           draw_step ops (pop, w, result, g) = Inr (pop, w, result, g1)"
    by blast
  then show ?case
  proof
    assume "\<exists>i<length pop.
                 draw_step ops (pop, w, result, g) =
                   Inr (take i pop @ drop (Suc i) pop, take i w @ drop (Suc i) w,
                        result @ [pop ! i], g1)"
    then obtain i where i: "i < length pop"
      and st: "draw_step ops (pop, w, result, g) =
                 Inr (take i pop @ drop (Suc i) pop, take i w @ drop (Suc i) w, result @ [pop ! i], g1)"
      by blast
    let ?pop1 = "take i pop @ drop (Suc i) pop" and ?w1 = "take i w @ drop (Suc i) w"
    from i Suc.prems have l1: "length ?pop1 = length ?w1" by simp
    from i Suc.prems have l2: "k \<le> length ?pop1" by simp
    from Suc.IH [OF l1 l2, of "result @ [pop ! i]" g1] obtain pop' w' xs g'
      where run: "sample_loop ops k (?pop1, ?w1, result @ [pop ! i], g1) =
                    Inr (pop', w', (result @ [pop ! i]) @ xs, g')"
        and lx: "length xs \<le> k" and lp: "length pop' = length w'"
        and ms: "mset xs + mset pop' = mset ?pop1" and sw: "subseq w' ?w1" by blast
    have "sample_loop ops (Suc k) (pop, w, result, g) = Inr (pop', w', result @ (pop ! i # xs), g')"
      using st run by simp
    moreover have "length (pop ! i # xs) \<le> Suc k" using lx by simp
    moreover have "mset (pop ! i # xs) + mset pop' = mset pop"
      using ms mset_remove_nth [OF i] by simp
    moreover from i Suc.prems have "subseq ?w1 w" by (intro subseq_remove_nth) simp
    with sw have "subseq w' w" by (rule subseq_order.trans)
    ultimately show ?thesis using lp by blast
  next
    assume st: "draw_step ops (pop, w, result, g) = Inr (pop, w, result, g1)"
    from Suc.prems have l2: "k \<le> length pop" by simp
    from Suc.IH [OF Suc.prems(1) l2, of result g1] obtain pop' w' xs g'
      where run: "sample_loop ops k (pop, w, result, g1) = Inr (pop', w', result @ xs, g')"
        and lx: "length xs \<le> k" and lp: "length pop' = length w'"
        and ms: "mset xs + mset pop' = mset pop" and sw: "subseq w' w" by blast
    have "sample_loop ops (Suc k) (pop, w, result, g) = Inr (pop', w', result @ xs, g')"
      using st run by simp
    with lx lp ms sw show ?thesis by (metis le_SucI)
  qed
qed

text \<open>
  When no sum of remaining weights is infinite or NaN, every step removes a category.
\<close>

lemma sample_loop_full:
  assumes ok: "rng_ok ops"
  shows "length pop = length w \<Longrightarrow> k \<le> length pop \<Longrightarrow>
         (\<forall>ws. subseq ws w \<longrightarrow> isfinite (py_sum ws)) \<Longrightarrow>
         \<exists>pop' w' xs g'. sample_loop ops k (pop, w, result, g) = Inr (pop', w', result @ xs, g') \<and>
           length xs = k \<and> mset xs + mset pop' = mset pop"
proof (induction k arbitrary: pop w result g)
  case 0
  then show ?case by simp
next
  case (Suc k)
  from Suc.prems have ne: "pop \<noteq> []" by auto
  from Suc.prems(3) have fin: "isfinite (py_sum w)" by simp
  from draw_step_ok [OF ok Suc.prems(1) ne, of result g] fin obtain g1 i
    where i: "i < length pop"
      and st: "draw_step ops (pop, w, result, g) =
                 Inr (take i pop @ drop (Suc i) pop, take i w @ drop (Suc i) w, result @ [pop ! i], g1)"
    by blast
  let ?pop1 = "take i pop @ drop (Suc i) pop" and ?w1 = "take i w @ drop (Suc i) w"
  from i Suc.prems have l1: "length ?pop1 = length ?w1" by simp
  from i Suc.prems have l2: "k \<le> length ?pop1" by simp
  from i Suc.prems have "subseq ?w1 w" by (intro subseq_remove_nth) simp
  with Suc.prems(3) have f1: "\<forall>ws. subseq ws ?w1 \<longrightarrow> isfinite (py_sum ws)"
    by (meson subseq_order.trans)
  from Suc.IH [OF l1 l2 f1, of "result @ [pop ! i]" g1] obtain pop' w' xs g'
    where run: "sample_loop ops k (?pop1, ?w1, result @ [pop ! i], g1) =
                  Inr (pop', w', (result @ [pop ! i]) @ xs, g')"
      and lx: "length xs = k" and ms: "mset xs + mset pop' = mset ?pop1" by blast
  have "sample_loop ops (Suc k) (pop, w, result, g) = Inr (pop', w', result @ (pop ! i # xs), g')"
    using st run by simp
  moreover have "length (pop ! i # xs) = Suc k" using lx by simp
  moreover have "mset (pop ! i # xs) + mset pop' = mset pop"
    using ms mset_remove_nth [OF i] by simp
  ultimately show ?case by blast
qed

subsection \<open>The library loops\<close>

lemma bisect_bounds: "lo \<le> hi \<Longrightarrow> lo \<le> bisect a x lo hi \<and> bisect a x lo hi \<le> hi"
proof (induction a x lo hi rule: bisect.induct)
  case (1 a x lo hi)
  show ?case
  proof (cases "lo < hi")
    case False
    with "1.prems" show ?thesis by (simp add: bisect.simps)
  next
    case True
    let ?mid = "(lo + hi) div 2"
    from True have m: "lo \<le> ?mid" "?mid < hi" by auto
    show ?thesis
    proof (cases "flt x (a ! ?mid)")
      case less: True
      from "1.IH"(1) [OF True refl less] m
      have "lo \<le> bisect a x lo ?mid \<and> bisect a x lo ?mid \<le> ?mid" by simp
      moreover have "bisect a x lo hi = bisect a x lo ?mid"
        using True less by (subst bisect.simps) (simp add: Let_def)
      ultimately show ?thesis using m by simp
    next
      case geq: False
      from "1.IH"(2) [OF True refl geq] m
      have "?mid + 1 \<le> bisect a x (?mid + 1) hi \<and> bisect a x (?mid + 1) hi \<le> hi" by simp
      moreover have "bisect a x lo hi = bisect a x (?mid + 1) hi"
        using True geq by (subst bisect.simps) (simp add: Let_def)
      ultimately show ?thesis using m by simp
    qed
  qed
qed

lemma length_running: "length (running acc ws) = length ws"
  by (induction ws arbitrary: acc) simp_all

lemma length_accumulate: "length (accumulate ws) = length ws"
  by (cases ws) (simp_all add: length_running)

lemma choices_loop_ok:
  "hi < length population \<Longrightarrow>
   \<exists>xs g'. choices_loop ops population cum tot hi k g = Inr (xs, g') \<and>
     length xs = k \<and> set xs \<subseteq> set population"
proof (induction k arbitrary: g)
  case 0
  then show ?case by simp
next
  case (Suc k)
  obtain u g1 where rnd: "rng_random ops g = (u, g1)" by (cases "rng_random ops g")
  have "bisect cum (fmul u tot) 0 hi \<le> hi" using bisect_bounds [of 0 hi] by simp
  with Suc.prems have idx: "bisect cum (fmul u tot) 0 hi < length population" by simp
  from Suc.IH [OF Suc.prems, of g1] obtain xs g'
    where rest: "choices_loop ops population cum tot hi k g1 = Inr (xs, g')"
      and lx: "length xs = k" and sub: "set xs \<subseteq> set population" by blast
  have "choices_loop ops population cum tot hi (Suc k) g =
          Inr (population ! bisect cum (fmul u tot) 0 hi # xs, g')"
    using rnd idx rest by (simp add: Let_def)
  moreover have "set (population ! bisect cum (fmul u tot) 0 hi # xs) \<subseteq> set population"
    using idx sub by simp
  ultimately show ?case using lx by auto
qed

lemma choices_ok:
  assumes "length weights = length population" and "weights \<noteq> []"
    and "\<not> fle (total_weight weights) (Finite 0)" and "isfinite (total_weight weights)"
    and "k \<le> PY_SSIZE_T_MAX"
  shows "\<exists>xs g'. choices ops population weights k g = Inr (xs, g') \<and>
           length xs = nat k \<and> set xs \<subseteq> set population"
proof -
  from assms(2) have ne': "accumulate weights \<noteq> []"
    using length_accumulate [of weights] by (metis length_0_conv)
  from assms(1,2) have hi: "length population - 1 < length population" by (cases population) auto
  from choices_loop_ok [OF hi, of ops "accumulate weights" "total_weight weights" "nat k" g]
  show ?thesis
    using assms ne' by (simp add: choices_def Let_def length_accumulate)
qed

lemma choices_nonpos:
  assumes "length weights = length population" and "weights \<noteq> []"
    and "fle (total_weight weights) (Finite 0)"
  shows "choices ops population weights k g =
           Inl (ValueError ''Total of weights must be greater than zero'')"
proof -
  from assms(2) have "accumulate weights \<noteq> []"
    using length_accumulate [of weights] by (metis length_0_conv)
  then show ?thesis using assms by (simp add: choices_def Let_def length_accumulate)
qed

lemma choices_nonfinite:
  assumes "length weights = length population" and "weights \<noteq> []"
    and "\<not> fle (total_weight weights) (Finite 0)" and "\<not> isfinite (total_weight weights)"
  shows "choices ops population weights k g = Inl (ValueError ''Total of weights must be finite'')"
proof -
  from assms(2) have "accumulate weights \<noteq> []"
    using length_accumulate [of weights] by (metis length_0_conv)
  then show ?thesis using assms by (simp add: choices_def Let_def length_accumulate)
qed

lemma choices_overflow:
  assumes "length weights = length population" and "weights \<noteq> []"
    and "\<not> fle (total_weight weights) (Finite 0)" and "isfinite (total_weight weights)"
    and "PY_SSIZE_T_MAX < k"
  shows "choices ops population weights k g =
           Inl (OverflowError ''Python int too large to convert to C ssize_t'')"
proof -
  from assms(2) have "accumulate weights \<noteq> []"
    using length_accumulate [of weights] by (metis length_0_conv)
  then show ?thesis using assms by (simp add: choices_def Let_def length_accumulate)
qed

lemma choices_subset:
  "choices ops population weights k g = Inr (xs, g') \<Longrightarrow> set xs \<subseteq> set population"
proof -
  assume r: "choices ops population weights k g = Inr (xs, g')"
  then have len: "length weights = length population" and ne: "accumulate weights \<noteq> []"
    and loop: "choices_loop ops population (accumulate weights) (total_weight weights)
                 (length population - 1) (nat k) g = Inr (xs, g')"
    by (auto simp: choices_def Let_def length_accumulate split: if_splits)
  from ne len have "population \<noteq> []" by (auto simp: length_accumulate)
  then have "length population - 1 < length population" by (cases population) auto
  from choices_loop_ok [OF this, of ops "accumulate weights" "total_weight weights" "nat k" g] loop
  show ?thesis by auto
qed

lemma choice_subset: "choice ops seq g = Inr (x, g') \<Longrightarrow> x \<in> set seq"
  by (auto simp: choice_def split: if_splits prod.splits)

lemma choice_ok:
  assumes "rng_ok ops" and "seq \<noteq> []"
  shows "\<exists>x g'. choice ops seq g = Inr (x, g') \<and> x \<in> set seq"
proof -
  obtain j g' where rnd: "rng_randbelow ops (length seq) g = (j, g')"
    by (cases "rng_randbelow ops (length seq) g")
  from assms(2) have "0 < length seq" by simp
  from rng_randbelow_range [OF assms(1) this rnd] have "j < length seq" .
  with rnd assms(2) show ?thesis by (simp add: choice_def)
qed

lemma choice_loop_subset:
  "choice_loop ops seq k g = Inr (xs, g') \<Longrightarrow> length xs = k \<and> set xs \<subseteq> set seq"
proof (induction k arbitrary: g xs)
  case 0
  then show ?case by simp
next
  case (Suc k)
  from Suc.prems obtain x g1 rest where c: "choice ops seq g = Inr (x, g1)"
    and r: "choice_loop ops seq k g1 = Inr (rest, g')" and xs: "xs = x # rest"
    by (auto split: sum.splits prod.splits)
  from Suc.IH [OF r] choice_subset [OF c] xs show ?case by simp
qed

lemma choice_loop_ok:
  assumes "rng_ok ops" and "seq \<noteq> []"
  shows "\<exists>xs g'. choice_loop ops seq k g = Inr (xs, g')"
proof (induction k arbitrary: g)
  case 0
  then show ?case by simp
next
  case (Suc k)
  from choice_ok [OF assms, of g] obtain x g1 where c: "choice ops seq g = Inr (x, g1)" by blast
  from Suc.IH [of g1] obtain xs g' where "choice_loop ops seq k g1 = Inr (xs, g')" by blast
  with c show ?case by simp
qed

subsection \<open>The pool of \<open>sample\<close>\<close>

lemma pool_swap_mset:
  assumes "j \<le> m" and "m < length pool"
  shows "add_mset (pool ! j) (mset (take m (pool[j := pool ! m]))) = mset (take (Suc m) pool)"
proof (cases "j = m")
  case True
  then show ?thesis using assms by (simp add: take_Suc_conv_app_nth)
next
  case False
  with assms have jm: "j < m" by simp
  with assms have jl: "j < length (take m pool)" by simp
  have mem: "pool ! j \<in># mset (take m pool)"
    using jl by (metis nth_mem nth_take jm set_mset_mset)
  have "mset (take m (pool[j := pool ! m])) = mset ((take m pool)[j := pool ! m])"
    by (simp add: take_update_swap)
  also have "\<dots> = add_mset (pool ! m) (mset (take m pool) - {#pool ! j#})"
    using jl jm by (simp add: mset_update)
  finally show ?thesis
    using mem assms by (simp add: take_Suc_conv_app_nth)
qed

lemma sample_pool_ok:
  assumes ok: "rng_ok ops"
  shows "length pool = n \<Longrightarrow> i + m \<le> n \<Longrightarrow>
         \<exists>pool' xs g'. sample_pool ops n i m (pool, result, g) = Inr (pool', result @ xs, g') \<and>
           length xs = m \<and> length pool' = n \<and>
           mset xs + mset (take (n - i - m) pool') = mset (take (n - i) pool)"
proof (induction m arbitrary: i pool result g)
  case 0
  then show ?case by simp
next
  case (Suc m)
  from Suc.prems have i: "i < n" by simp
  obtain j g1 where rnd: "rng_randbelow ops (n - i) g = (j, g1)"
    by (cases "rng_randbelow ops (n - i) g")
  from i have "0 < n - i" by simp
  from rng_randbelow_range [OF ok this rnd] have j: "j < n - i" .
  let ?last = "n - i - 1"
  let ?pool1 = "pool[j := pool ! ?last]"
  from j i Suc.prems have jl: "j < length pool" and ll: "?last < length pool" and jle: "j \<le> ?last"
    by simp_all
  have l1: "length ?pool1 = n" using Suc.prems by simp
  have l2: "Suc i + m \<le> n" using Suc.prems by simp
  from Suc.IH [OF l1 l2, of "result @ [pool ! j]" g1] obtain pool' xs g'
    where run: "sample_pool ops n (Suc i) m (?pool1, result @ [pool ! j], g1) =
                  Inr (pool', (result @ [pool ! j]) @ xs, g')"
      and lx: "length xs = m" and lp: "length pool' = n"
      and ms: "mset xs + mset (take (n - Suc i - m) pool') = mset (take (n - Suc i) ?pool1)"
    by blast
  have step: "sample_pool ops n i (Suc m) (pool, result, g) = Inr (pool', result @ (pool ! j # xs), g')"
    using rnd jl ll i run by simp
  have "Suc ?last = n - i" using i by simp
  with pool_swap_mset [OF jle ll]
  have sw: "add_mset (pool ! j) (mset (take ?last ?pool1)) = mset (take (n - i) pool)" by simp
  have "mset (pool ! j # xs) + mset (take (n - i - Suc m) pool') = mset (take (n - i) pool)"
    using ms sw by simp
  with step lx lp show ?case by (metis length_Cons)
qed

lemma sample_ok:
  assumes ok: "rng_ok ops" and k: "0 \<le> k" "k \<le> int (length population)"
  shows "\<exists>xs g' rest. sample ops population k g = Inr (xs, g') \<and> length xs = nat k \<and>
           mset xs + mset rest = mset population"
proof -
  from k have "0 + nat k \<le> length population" by simp
  from sample_pool_ok [OF ok refl this, of "[]" g] obtain pool' xs g'
    where run: "sample_pool ops (length population) 0 (nat k) (population, [], g) = Inr (pool', xs, g')"
      and lx: "length xs = nat k"
      and ms: "mset xs + mset (take (length population - 0 - nat k) pool') =
                 mset (take (length population - 0) population)"
    by auto
  from run k have "sample ops population k g = Inr (xs, g')" by (simp add: sample_def Let_def)
  with lx ms show ?thesis by auto
qed

subsection \<open>What a successful run returns\<close>

lemma set_remove_nth: "set (take i xs @ drop (Suc i) xs) \<subseteq> set xs"
  using set_take_subset [of i xs] set_drop_subset [of "Suc i" xs] by auto

lemma draw_step_subset:
  assumes "draw_step ops (pop, w, result, g) = Inr (pop', w', result', g')"
  shows "set pop' \<subseteq> set pop \<and> set result' \<subseteq> set result \<union> set pop"
proof (cases "fle (py_sum w) (Finite 0)")
  case True
  with assms obtain idx where "idx < length pop"
    and "pop' = take idx pop @ drop (Suc idx) pop" and "result' = result @ [pop ! idx]"
    by (auto simp: draw_step_def pop_at_def split: sum.splits prod.splits if_splits)
  then show ?thesis using set_remove_nth [of idx pop] by auto
next
  case False
  obtain u g1 where rnd: "rng_random ops g = (u, g1)" by (cases "rng_random ops g")
  show ?thesis
  proof (cases "scan (fmul u (py_sum w)) (Finite 0) 0 w")
    case None
    with assms False rnd show ?thesis by (auto simp: draw_step_def)
  next
    case (Some i)
    with assms False rnd have "i < length pop"
      and "pop' = take i pop @ drop (Suc i) pop" and "result' = result @ [pop ! i]"
      by (auto simp: draw_step_def pop_at_def split: sum.splits prod.splits if_splits)
    then show ?thesis using set_remove_nth [of i pop] by auto
  qed
qed

lemma sample_loop_subset:
  "sample_loop ops k (pop, w, result, g) = Inr (pop', w', result', g') \<Longrightarrow>
   set result' \<subseteq> set result \<union> set pop"
proof (induction k arbitrary: pop w result g)
  case 0
  then show ?case by auto
next
  case (Suc k)
  from Suc.prems obtain pop1 w1 result1 g1
    where st: "draw_step ops (pop, w, result, g) = Inr (pop1, w1, result1, g1)"
      and run: "sample_loop ops k (pop1, w1, result1, g1) = Inr (pop', w', result', g')"
    by (auto split: sum.splits)
  from Suc.IH [OF run] draw_step_subset [OF st] show ?case by blast
qed

lemma weighted_sample_subset:
  "weighted_sample_without_replacement ops population weights k g = Inr (xs, g') \<Longrightarrow>
   set xs \<subseteq> set population"
  by (auto simp: weighted_sample_without_replacement_def split: if_splits sum.splits
      dest!: sample_loop_subset)

lemma sample_pool_subset:
  "sample_pool ops n i m (pool, result, g) = Inr (pool', result', g') \<Longrightarrow>
   set result' \<subseteq> set result \<union> set pool"
proof (induction m arbitrary: i pool result g)
  case 0
  then show ?case by auto
next
  case (Suc m)
  obtain j g1 where rnd: "rng_randbelow ops (n - i) g = (j, g1)"
    by (cases "rng_randbelow ops (n - i) g")
  with Suc.prems have j: "j < length pool" and l: "n - i - 1 < length pool"
    and run: "sample_pool ops n (Suc i) m (pool[j := pool ! (n - i - 1)], result @ [pool ! j], g1) =
                Inr (pool', result', g')"
    by (auto split: if_splits)
  from l have "set (pool[j := pool ! (n - i - 1)]) \<subseteq> set pool"
    using set_update_subset_insert [of pool j "pool ! (n - i - 1)"] by auto
  with Suc.IH [OF run] j show ?case by auto
qed

lemma sample_subset:
  "sample ops population k g = Inr (xs, g') \<Longrightarrow> set xs \<subseteq> set population"
  by (auto simp: sample_def Let_def split: if_splits sum.splits dest!: sample_pool_subset)

lemma distinct_part:
  assumes "mset xs + mset rest = mset ys" and "distinct ys"
  shows "distinct xs"
proof -
  from assms(1) have "mset (xs @ rest) = mset ys" by simp
  then have "distinct (xs @ rest) \<longleftrightarrow> distinct ys" by (rule mset_eq_imp_distinct_iff)
  with assms(2) show ?thesis by simp
qed

lemma length_PRIZES: "length PRIZES = 6"
  by (simp add: PRIZES_def)

lemma distinct_PRIZES: "distinct PRIZES"
  by (simp add: PRIZES_def)

lemma length_DEFAULT_WEIGHTS: "length DEFAULT_WEIGHTS = 6"
  by (simp add: DEFAULT_WEIGHTS_def)

lemma returned_Inr: "returned r = Inr xs \<longleftrightarrow> (\<exists>g. r = Inr (xs, g))"
  by (auto simp: returned_def split: sum.splits)

lemma returned_Inl: "returned r = Inl e \<longleftrightarrow> r = Inl e"
  by (auto simp: returned_def split: sum.splits)

lemma set_PRIZES:
  "set PRIZES = {''photo frame'', ''slogan'', ''sticker set'', ''notebook'', ''pin button'', ''postcard''}"
  by (simp add: PRIZES_def)

subsection \<open>Runs of the weighted sampler\<close>

lemma weighted_sample_ok:
  assumes ok: "rng_ok ops" and len: "length population = length weights"
    and k: "0 \<le> k" "k \<le> int (length population)"
  shows "\<exists>xs g' rest. weighted_sample_without_replacement ops population weights k g = Inr (xs, g') \<and>
           length xs \<le> nat k \<and> mset xs + mset rest = mset population"
proof -
  from k have "nat k \<le> length population" by simp
  from sample_loop_ok [OF ok len this, of "[]" g] obtain pop' w' xs g'
    where "sample_loop ops (nat k) (population, weights, [], g) = Inr (pop', w', xs, g')"
      and "length xs \<le> nat k" and "mset xs + mset pop' = mset population"
    by auto
  with k show ?thesis by (auto simp: weighted_sample_without_replacement_def)
qed

lemma weighted_sample_full:
  assumes ok: "rng_ok ops" and len: "length population = length weights"
    and k: "0 \<le> k" "k \<le> int (length population)"
    and fin: "\<forall>ws. subseq ws weights \<longrightarrow> isfinite (py_sum ws)"
  shows "\<exists>xs g' rest. weighted_sample_without_replacement ops population weights k g = Inr (xs, g') \<and>
           length xs = nat k \<and> mset xs + mset rest = mset population"
proof -
  from k have "nat k \<le> length population" by simp
  from sample_loop_full [OF ok len this fin, of "[]" g] obtain pop' w' xs g'
    where "sample_loop ops (nat k) (population, weights, [], g) = Inr (pop', w', xs, g')"
      and "length xs = nat k" and "mset xs + mset pop' = mset population"
    by auto
  with k show ?thesis by (auto simp: weighted_sample_without_replacement_def)
qed

text \<open>
  Sums of a few weights between 0 and \<open>2 ^ 970\<close> stay finite: the sum of \<open>n\<close> of them
  is at most \<open>n * 2 ^ 970\<close>, which is representable.
\<close>

lemma moderate_foldl:
  "\<forall>x\<in>set ws. moderate x \<Longrightarrow> int n + int (length ws) < 2 ^ 53 \<Longrightarrow>
   0 \<le> c \<Longrightarrow> c \<le> of_int (int n) * 2 powi 970 \<Longrightarrow>
   \<exists>s. foldl fadd (Finite c) ws = Finite s \<and> 0 \<le> s"
proof (induction ws arbitrary: n c)
  case Nil
  then show ?case by simp
next
  case (Cons x ws)
  from Cons.prems(1) obtain a where x: "x = Finite a" and a: "0 \<le> a" "a \<le> 2 powi 970"
    by (cases x) (simp_all add: moderate_def)
  from Cons.prems(2) have n1: "\<bar>int (Suc n)\<bar> < 2 ^ 53" by simp
  have dt: "is_double (Finite (of_int (int (Suc n)) * 2 powi 970))"
    using n1 by (rule is_double_dyadic) simp_all
  have "c + a \<le> of_int (int n) * 2 powi 970 + 2 powi 970" using Cons.prems(4) a by simp
  also have "\<dots> = of_int (int (Suc n)) * 2 powi 970" by (simp add: algebra_simps)
  finally have le: "c + a \<le> of_int (int (Suc n)) * 2 powi 970" .
  from Cons.prems(3) a have ge: "0 \<le> c + a" by simp
  from round_double_le [OF ge le dt] obtain v
    where v: "round_double (c + a) = Finite v" "0 \<le> v" "v \<le> of_int (int (Suc n)) * 2 powi 970"
    by blast
  from Cons.prems(1) have m: "\<forall>x\<in>set ws. moderate x" by simp
  from Cons.prems(2) have l: "int (Suc n) + int (length ws) < 2 ^ 53" by simp
  from Cons.IH [OF m l v(2) v(3)] x v show ?case by simp
qed

lemma moderate_sums_finite:
  assumes "\<forall>x\<in>set ws. moderate x" and "length ws \<le> 1000"
  shows "\<forall>ws'. subseq ws' ws \<longrightarrow> isfinite (py_sum ws')"
proof (intro allI impI)
  fix ws' assume s: "subseq ws' ws"
  then have "set ws' \<subseteq> set ws" by (auto dest: list_emb_set)
  with assms(1) have m: "\<forall>x\<in>set ws'. moderate x" by blast
  from s have "length ws' \<le> length ws" by (rule list_emb_length)
  with assms(2) have l: "int 0 + int (length ws') < 2 ^ 53" by simp
  from moderate_foldl [OF m l, of 0] show "isfinite (py_sum ws')"
    by (auto simp: py_sum_def)
qed

lemma sums_finite_iff: "sums_finite ws \<longleftrightarrow> (\<forall>ws'. subseq ws' ws \<longrightarrow> isfinite (py_sum ws'))"
  by (auto simp: sums_finite_def list_all_iff)

lemma moderate_sums: "\<forall>x\<in>set ws. moderate x \<Longrightarrow> length ws \<le> 1000 \<Longrightarrow> sums_finite ws"
  by (simp only: sums_finite_iff) (rule moderate_sums_finite)

subsection \<open>The default weights\<close>

lemma small_moderate: "0 \<le> a \<Longrightarrow> a \<le> 32 \<Longrightarrow> moderate (Finite a)"
proof -
  assume a: "0 \<le> a" "a \<le> 32"
  have "(32::rat) = 2 powi 5" by simp
  also have "\<dots> \<le> 2 powi 970" by (rule pow2_mono) simp
  finally have "(32::rat) \<le> 2 powi 970" .
  with a(2) have "a \<le> 2 powi 970" by (rule order_trans)
  with a show ?thesis by (simp only: moderate_def double.case)
qed

lemma sums_finite_DEFAULT_WEIGHTS: "sums_finite DEFAULT_WEIGHTS"
proof (rule moderate_sums)
  show "\<forall>x\<in>set DEFAULT_WEIGHTS. moderate x"
    by (simp add: DEFAULT_WEIGHTS_def small_moderate)
  show "length DEFAULT_WEIGHTS \<le> 1000" by (simp add: DEFAULT_WEIGHTS_def)
qed

lemma accumulate_DEFAULT_WEIGHTS:
  "accumulate DEFAULT_WEIGHTS = [Finite 1, Finite 4, Finite 10, Finite 20, Finite 40, Finite 70]"
proof -
  have "fadd (Finite 1) (Finite 3) = Finite 4" using fadd_int [of 1 3] by (simp del: fadd.simps)
  moreover have "fadd (Finite 4) (Finite 6) = Finite 10"
    using fadd_int [of 4 6] by (simp del: fadd.simps)
  moreover have "fadd (Finite 10) (Finite 10) = Finite 20"
    using fadd_int [of 10 10] by (simp del: fadd.simps)
  moreover have "fadd (Finite 20) (Finite 20) = Finite 40"
    using fadd_int [of 20 20] by (simp del: fadd.simps)
  moreover have "fadd (Finite 40) (Finite 30) = Finite 70"
    using fadd_int [of 40 30] by (simp del: fadd.simps)
  ultimately show ?thesis by (simp add: DEFAULT_WEIGHTS_def del: fadd.simps)
qed

lemma total_weight_DEFAULT_WEIGHTS: "total_weight DEFAULT_WEIGHTS = Finite 70"
proof -
  have "is_double (Finite (of_int 70))" by (rule is_double_of_int) simp
  then have "fadd (Finite 70) (Finite 0) = Finite 70"
    using fadd_zero_right [of "Finite 70"] by (simp del: fadd.simps)
  then show ?thesis by (simp add: total_weight_def accumulate_DEFAULT_WEIGHTS del: fadd.simps)
qed

subsection \<open>The outcome of \<open>draw_prizes\<close>\<close>

text \<open>The four modes of \<open>draw_prizes\<close>, past the three checks.\<close>

lemma draw_prizes_run_modes:
  assumes "1 \<le> quantity" and "length ws = 6" and "unique \<longrightarrow> quantity \<le> 6"
    and "ws = (case weights of None \<Rightarrow> DEFAULT_WEIGHTS | Some v \<Rightarrow> v)"
    and "rng = (case seed of None \<Rightarrow> entropy | Some s \<Rightarrow> rng_seed ops s)"
  shows "draw_prizes_run ops entropy quantity unique seed tiered weights =
           (if unique then
              (if tiered then weighted_sample_without_replacement ops PRIZES ws quantity rng
               else sample ops PRIZES quantity rng)
            else
              (if tiered then choices ops PRIZES ws quantity rng
               else choice_loop ops PRIZES (nat quantity) rng))"
  using assms by (auto simp: draw_prizes_run_def Let_def length_PRIZES)

lemma draw_prizes_unique_ok:
  assumes "rng_ok ops" and "1 \<le> quantity" and "quantity \<le> 6"
    and "ws = (case weights of None \<Rightarrow> DEFAULT_WEIGHTS | Some v \<Rightarrow> v)" and "length ws = 6"
  shows "\<exists>xs. draw_prizes ops entropy quantity True seed tiered weights = Inr xs \<and>
           distinct xs \<and> int (length xs) \<le> quantity \<and>
           (\<not> tiered \<or> sums_finite ws \<longrightarrow> int (length xs) = quantity)"
proof -
  define rng where "rng = (case seed of None \<Rightarrow> entropy | Some s \<Rightarrow> rng_seed ops s)"
  from assms(3) have u: "True \<longrightarrow> quantity \<le> 6" by simp
  note modes = draw_prizes_run_modes [OF assms(2) assms(5) u assms(4) rng_def, of tiered]
  from assms(2,3) have k: "0 \<le> quantity" "quantity \<le> int (length PRIZES)"
    by (simp_all add: length_PRIZES)
  from assms(5) have len: "length PRIZES = length ws" by (simp add: length_PRIZES)
  show ?thesis
  proof (cases tiered)
    case False
    from sample_ok [OF assms(1) k, of rng] obtain xs g' rest
      where "sample ops PRIZES quantity rng = Inr (xs, g')"
        and "length xs = nat quantity" and "mset xs + mset rest = mset PRIZES" by blast
    with modes False k distinct_part [OF _ distinct_PRIZES, of xs rest] show ?thesis
      by (auto simp: draw_prizes_def returned_def)
  next
    case True
    show ?thesis
    proof (cases "sums_finite ws")
      case fin: True
      then have "\<forall>ws'. subseq ws' ws \<longrightarrow> isfinite (py_sum ws')" by (simp only: sums_finite_iff)
      from weighted_sample_full [OF assms(1) len k this, of rng] obtain xs g' rest
        where "weighted_sample_without_replacement ops PRIZES ws quantity rng = Inr (xs, g')"
          and "length xs = nat quantity" and "mset xs + mset rest = mset PRIZES" by blast
      with modes True k distinct_part [OF _ distinct_PRIZES, of xs rest] show ?thesis
        by (auto simp: draw_prizes_def returned_def)
    next
      case nofin: False
      from weighted_sample_ok [OF assms(1) len k, of rng] obtain xs g' rest
        where "weighted_sample_without_replacement ops PRIZES ws quantity rng = Inr (xs, g')"
          and "length xs \<le> nat quantity" and "mset xs + mset rest = mset PRIZES" by blast
      with modes True nofin k distinct_part [OF _ distinct_PRIZES, of xs rest] show ?thesis
        by (auto simp: draw_prizes_def returned_def)
    qed
  qed
qed

lemma draw_prizes_replacement_ok:
  assumes "rng_ok ops" and "1 \<le> quantity"
    and "ws = (case weights of None \<Rightarrow> DEFAULT_WEIGHTS | Some v \<Rightarrow> v)" and "length ws = 6"
    and "tiered \<longrightarrow> \<not> fle (total_weight ws) (Finite 0) \<and> isfinite (total_weight ws) \<and>
                      quantity \<le> PY_SSIZE_T_MAX"
  shows "\<exists>xs. draw_prizes ops entropy quantity False seed tiered weights = Inr xs \<and>
           int (length xs) = quantity"
proof -
  define rng where "rng = (case seed of None \<Rightarrow> entropy | Some s \<Rightarrow> rng_seed ops s)"
  have u: "False \<longrightarrow> quantity \<le> 6" by simp
  note modes = draw_prizes_run_modes [OF assms(2) assms(4) u assms(3) rng_def, of tiered]
  show ?thesis
  proof (cases tiered)
    case True
    from assms(4) have len: "length ws = length PRIZES" and ne: "ws \<noteq> []"
      by (auto simp: length_PRIZES)
    from True assms(5) have t: "\<not> fle (total_weight ws) (Finite 0)" "isfinite (total_weight ws)"
      "quantity \<le> PY_SSIZE_T_MAX" by simp_all
    from choices_ok [OF len ne t, of ops rng] obtain xs g'
      where "choices ops PRIZES ws quantity rng = Inr (xs, g')"
        and "length xs = nat quantity" by blast
    with modes True assms(2) show ?thesis by (auto simp: draw_prizes_def returned_def)
  next
    case False
    have "PRIZES \<noteq> []" by (simp add: PRIZES_def)
    from choice_loop_ok [OF assms(1) this, of "nat quantity" rng] obtain xs g'
      where r: "choice_loop ops PRIZES (nat quantity) rng = Inr (xs, g')" by blast
    from choice_loop_subset [OF r] have "length xs = nat quantity" by simp
    with r modes False assms(2) show ?thesis by (auto simp: draw_prizes_def returned_def)
  qed
qed

lemma draw_prizes_outcome:
  assumes "rng_ok ops" and "ws = (case weights of None \<Rightarrow> DEFAULT_WEIGHTS | Some v \<Rightarrow> v)"
  shows "((\<exists>msg. draw_prizes ops entropy quantity unique seed tiered weights = Inl (ValueError msg)) \<longleftrightarrow>
            quantity < 1 \<or> length ws \<noteq> 6 \<or> (unique \<and> 6 < quantity) \<or>
            (\<not> unique \<and> tiered \<and>
               (fle (total_weight ws) (Finite 0) \<or> \<not> isfinite (total_weight ws)))) \<and>
         ((\<exists>msg. draw_prizes ops entropy quantity unique seed tiered weights = Inl (OverflowError msg)) \<longleftrightarrow>
            1 \<le> quantity \<and> length ws = 6 \<and> \<not> unique \<and> tiered \<and>
            \<not> fle (total_weight ws) (Finite 0) \<and> isfinite (total_weight ws) \<and>
            PY_SSIZE_T_MAX < quantity) \<and>
         (\<forall>e. draw_prizes ops entropy quantity unique seed tiered weights = Inl e \<longrightarrow>
              (\<exists>msg. e = ValueError msg \<or> e = OverflowError msg))"
proof (cases "quantity < 1 \<or> length ws \<noteq> 6 \<or> (unique \<and> 6 < quantity)")
  case True
  then have "\<exists>msg. draw_prizes ops entropy quantity unique seed tiered weights = Inl (ValueError msg)"
    using assms(2) by (auto simp: draw_prizes_def returned_def draw_prizes_run_def Let_def length_PRIZES)
  with True show ?thesis by auto
next
  case False
  then have q: "1 \<le> quantity" and lw: "length ws = 6" and u: "unique \<longrightarrow> quantity \<le> 6"
    by auto
  define rng where "rng = (case seed of None \<Rightarrow> entropy | Some s \<Rightarrow> rng_seed ops s)"
  note modes = draw_prizes_run_modes [OF q lw u assms(2) rng_def, of tiered]
  from q u have k: "unique \<longrightarrow> 0 \<le> quantity \<and> quantity \<le> int (length PRIZES)"
    by (simp add: length_PRIZES)
  from lw have len: "length PRIZES = length ws" and ne: "ws \<noteq> []" by (auto simp: length_PRIZES)
  consider (ret) xs where "draw_prizes ops entropy quantity unique seed tiered weights = Inr xs"
      "unique \<or> \<not> tiered \<or> (\<not> fle (total_weight ws) (Finite 0) \<and> isfinite (total_weight ws) \<and>
         quantity \<le> PY_SSIZE_T_MAX)"
    | (val) msg where "draw_prizes ops entropy quantity unique seed tiered weights = Inl (ValueError msg)"
      "\<not> unique" "tiered" "fle (total_weight ws) (Finite 0) \<or> \<not> isfinite (total_weight ws)"
    | (ovf) msg where "draw_prizes ops entropy quantity unique seed tiered weights = Inl (OverflowError msg)"
      "\<not> unique" "tiered" "\<not> fle (total_weight ws) (Finite 0)" "isfinite (total_weight ws)"
      "PY_SSIZE_T_MAX < quantity"
  proof (cases unique)
    case True
    with q u have "1 \<le> quantity" "quantity \<le> 6" by simp_all
    from draw_prizes_unique_ok [OF assms(1) this assms(2) lw, of entropy seed tiered] True
    show ?thesis by (auto intro: ret)
  next
    case nu: False
    show ?thesis
    proof (cases tiered)
      case False
      with draw_prizes_replacement_ok [OF assms(1) q assms(2) lw, of tiered entropy seed] nu
      show ?thesis by (auto intro: ret)
    next
      case t: True
      show ?thesis
      proof (cases "fle (total_weight ws) (Finite 0)")
        case True
        from choices_nonpos [OF len [symmetric] ne True, of ops quantity rng] modes nu t True
        show ?thesis by (auto simp: draw_prizes_def returned_def intro: val)
      next
        case pos: False
        show ?thesis
        proof (cases "isfinite (total_weight ws)")
          case False
          from choices_nonfinite [OF len [symmetric] ne pos False, of ops quantity rng] modes nu t False
          show ?thesis by (auto simp: draw_prizes_def returned_def intro: val)
        next
          case fin: True
          show ?thesis
          proof (cases "PY_SSIZE_T_MAX < quantity")
            case True
            from choices_overflow [OF len [symmetric] ne pos fin True, of ops rng] modes nu t pos fin True
            show ?thesis by (auto simp: draw_prizes_def returned_def intro: ovf)
          next
            case False
            with draw_prizes_replacement_ok [OF assms(1) q assms(2) lw, of tiered entropy seed]
              nu t pos fin
            show ?thesis by (auto intro: ret)
          qed
        qed
      qed
    qed
  qed
  then show ?thesis
  proof cases
    case ret
    with False show ?thesis by auto
  next
    case val
    with False show ?thesis by auto
  next
    case ovf
    with False q lw show ?thesis by auto
  qed
qed

subsection \<open>The small generator and the example floats\<close>

lemma demo_random: "rng_random demo_rng g = (Finite (of_nat (g mod 16) / 16), demo_next g)"
  by (simp add: demo_rng_def)

lemma demo_randbelow: "rng_randbelow demo_rng n g = (g mod n, demo_next g)"
  by (simp add: demo_rng_def)

lemma sixteenth_is_double: "is_double (Finite (of_nat k / 16))" if "k < 16"
proof -
  have "\<bar>int k\<bar> < 2 ^ 53" using that by simp
  from is_double_dyadic [OF this, of "- 4"] have "is_double (Finite (of_int (int k) * 2 powi (- 4)))"
    by simp
  moreover have "(2::rat) powi (- 4) = 1 / 16" by (simp add: power_int_minus)
  ultimately show ?thesis by simp
qed

lemma demo_rng_ok: "rng_ok demo_rng"
proof -
  have "unit_float (Finite (of_nat (g mod 16) / 16))" for g :: nat
    using sixteenth_is_double [of "g mod 16"] by (simp add: unit_float_def)
  then show ?thesis by (simp add: rng_ok_def demo_rng_def)
qed

lemma is_double_huge: "is_double huge"
proof -
  have "\<bar>2 ^ 52 :: int\<bar> < 2 ^ 53" by simp
  from is_double_dyadic [OF this, of 971] have "is_double (Finite (of_int (2 ^ 52) * 2 powi 971))"
    by simp
  moreover have "(of_int (2 ^ 52) :: rat) = 2 powi 52" by simp
  moreover have "(2::rat) powi 52 * 2 powi 971 = 2 powi 1023" by (simp only: pow2_add) simp
  ultimately show ?thesis by (simp only: huge_def)
qed

lemma fadd_zero_huge: "fadd (Finite 0) huge = huge"
  using is_double_huge by (rule fadd_zero_left)




lemma py_sum_huge1: "py_sum [huge] = huge"
  by (simp only: py_sum_def foldl.simps fadd_zero_huge)








lemma fadd_zero_zero: "fadd (Finite 0) (Finite 0) = Finite 0"
  by (simp add: round_double_zero)

lemma py_sum_zeros: "py_sum (replicate n (Finite 0)) = Finite 0"
proof -
  have "foldl fadd (Finite 0) (replicate n (Finite 0)) = Finite 0"
    by (induction n) (simp_all only: replicate.simps foldl.simps fadd_zero_zero)
  then show ?thesis by (simp only: py_sum_def)
qed

lemma subseq_replicate: "subseq ws (replicate n x) \<Longrightarrow> ws = replicate (length ws) x"
proof -
  assume "subseq ws (replicate n x)"
  then have "set ws \<subseteq> set (replicate n x)" by (auto dest: list_emb_set)
  then have "\<forall>y\<in>set ws. y = x" by auto
  then show ?thesis by (simp add: replicate_length_same)
qed

lemma sums_finite_zeros: "sums_finite (replicate n (Finite 0))"
proof -
  have "isfinite (py_sum ws)" if "subseq ws (replicate n (Finite 0))" for ws
  proof -
    from subseq_replicate [OF that] have "py_sum ws = py_sum (replicate (length ws) (Finite 0))"
      by simp
    then show ?thesis by (simp only: py_sum_zeros isfinite.simps)
  qed
  then show ?thesis by (simp add: sums_finite_iff)
qed

subsection \<open>The calls of a run\<close>

lemma logged_random:
  "rng_random (logged ops) (g, l) =
     (fst (rng_random ops g), (snd (rng_random ops g), l @ [CallRandom]))"
  by (simp add: logged_def split: prod.splits)

lemma logged_randbelow:
  "rng_randbelow (logged ops) n (g, l) =
     (fst (rng_randbelow ops n g), (snd (rng_randbelow ops n g), l @ [CallRandbelow n]))"
  by (simp add: logged_def split: prod.splits)

lemma logged_seed: "rng_seed (logged ops) s = (rng_seed ops s, [])"
  by (simp add: logged_def)

text \<open>A result of the plain model, with the log that the calls \<open>cs\<close> leave.\<close>

lemma draw_step_logged:
  "draw_step (logged ops) (pop, w, result, (g, l)) =
     (case draw_step ops (pop, w, result, g) of
        Inl e \<Rightarrow> Inl e
      | Inr (pop', w', result', g') \<Rightarrow>
          Inr (pop', w', result', (g', l @ [step_call (pop, w, result, g)])))"
  by (simp add: draw_step_def step_call_def randrange_def logged_random logged_randbelow Let_def
      split: sum.splits prod.splits option.splits)

lemma sample_loop_logged:
  "sample_loop (logged ops) k (pop, w, result, (g, l)) =
     (case sample_loop ops k (pop, w, result, g) of
        Inl e \<Rightarrow> Inl e
      | Inr (pop', w', result', g') \<Rightarrow>
          Inr (pop', w', result', (g', l @ sampler_calls ops k (pop, w, result, g))))"
proof (induction k arbitrary: pop w result g l)
  case 0
  show ?case by simp
next
  case (Suc k)
  show ?case
  proof (cases "draw_step ops (pop, w, result, g)")
    case (Inl e)
    then show ?thesis by (simp add: draw_step_logged)
  next
    case (Inr s')
    obtain pop' w' result' g' where s': "s' = (pop', w', result', g')" by (cases s') auto
    with Inr Suc.IH [of pop' w' result' g' "l @ [step_call (pop, w, result, g)]"]
    show ?thesis by (simp add: draw_step_logged split: sum.splits prod.splits)
  qed
qed

lemma sampler_calls_length:
  "sample_loop ops k s = Inr s' \<Longrightarrow> length (sampler_calls ops k s) = k"
proof (induction k arbitrary: s)
  case 0
  show ?case by simp
next
  case (Suc k)
  then show ?case by (cases "draw_step ops s") auto
qed

lemma weighted_sample_logged:
  "weighted_sample_without_replacement (logged ops) population weights k (g, l) =
     (case weighted_sample_without_replacement ops population weights k g of
        Inl e \<Rightarrow> Inl e
      | Inr (xs, g') \<Rightarrow>
          Inr (xs, (g', l @ sampler_calls ops (nat k) (population, weights, [], g))))"
  by (simp add: weighted_sample_without_replacement_def sample_loop_logged
      split: sum.splits prod.splits)

lemma weighted_sample_calls_length:
  "weighted_sample_without_replacement ops population weights k g = Inr (xs, g') \<Longrightarrow>
     length (sampler_calls ops (nat k) (population, weights, [], g)) = nat k"
  by (auto simp: weighted_sample_without_replacement_def
      split: if_splits sum.splits prod.splits dest: sampler_calls_length)

lemma choices_loop_logged:
  "choices_loop (logged ops) population cum tot hi k (g, l) =
     (case choices_loop ops population cum tot hi k g of
        Inl e \<Rightarrow> Inl e
      | Inr (xs, g') \<Rightarrow> Inr (xs, (g', l @ replicate k CallRandom)))"
proof (induction k arbitrary: g l)
  case 0
  show ?case by simp
next
  case (Suc k)
  have r: "l @ CallRandom # replicate k CallRandom = (l @ [CallRandom]) @ replicate k CallRandom"
    by simp
  show ?case
    by (simp add: logged_random Let_def Suc.IH replicate_append_same
        split: sum.splits prod.splits)
qed

lemma choices_logged:
  "choices (logged ops) population weights k (g, l) =
     (case choices ops population weights k g of
        Inl e \<Rightarrow> Inl e
      | Inr (xs, g') \<Rightarrow> Inr (xs, (g', l @ replicate (nat k) CallRandom)))"
  by (simp add: choices_def Let_def choices_loop_logged)

lemma choice_logged:
  "choice (logged ops) seq (g, l) =
     (case choice ops seq g of
        Inl e \<Rightarrow> Inl e
      | Inr (x, g') \<Rightarrow> Inr (x, (g', l @ [CallRandbelow (length seq)])))"
  by (simp add: choice_def logged_randbelow split: prod.splits)

lemma choice_loop_logged:
  "choice_loop (logged ops) seq k (g, l) =
     (case choice_loop ops seq k g of
        Inl e \<Rightarrow> Inl e
      | Inr (xs, g') \<Rightarrow> Inr (xs, (g', l @ replicate k (CallRandbelow (length seq)))))"
proof (induction k arbitrary: g l)
  case 0
  show ?case by simp
next
  case (Suc k)
  show ?case
    by (simp add: choice_logged Suc.IH replicate_append_same split: sum.splits prod.splits)
qed

lemma sample_pool_logged:
  "sample_pool (logged ops) n i m (pool, result, (g, l)) =
     (case sample_pool ops n i m (pool, result, g) of
        Inl e \<Rightarrow> Inl e
      | Inr (pool', result', g') \<Rightarrow>
          Inr (pool', result', (g', l @ map (\<lambda>j. CallRandbelow (n - j)) [i..<i + m])))"
proof (induction m arbitrary: i pool result g l)
  case 0
  show ?case by simp
next
  case (Suc m)
  have u: "[i..<i + Suc m] = i # [Suc i..<Suc i + m]" by (simp add: upt_conv_Cons)
  show ?case
    by (simp only: u) (simp add: logged_randbelow Suc.IH split: sum.splits prod.splits)
qed

lemma sample_logged:
  "sample (logged ops) population k (g, l) =
     (case sample ops population k g of
        Inl e \<Rightarrow> Inl e
      | Inr (xs, g') \<Rightarrow>
          Inr (xs, (g', l @ map (\<lambda>j. CallRandbelow (length population - j)) [0..<nat k])))"
  using sample_pool_logged [of ops "length population" 0 "nat k" population "[]" g l]
  by (simp add: sample_def Let_def split: sum.splits prod.splits)

lemma draw_prizes_run_logged:
  assumes "ws = (case weights of None \<Rightarrow> DEFAULT_WEIGHTS | Some v \<Rightarrow> v)"
    and "rng = (case seed of None \<Rightarrow> entropy | Some s \<Rightarrow> rng_seed ops s)"
  shows "draw_prizes_run (logged ops) (entropy, []) quantity unique seed tiered weights =
     (case draw_prizes_run ops entropy quantity unique seed tiered weights of
        Inl e \<Rightarrow> Inl e
      | Inr (xs, g') \<Rightarrow> Inr (xs, (g', run_calls ops rng quantity unique tiered ws)))"
proof -
  have r: "(case seed of None \<Rightarrow> (entropy, []) | Some s \<Rightarrow> rng_seed (logged ops) s) = (rng, [])"
    by (simp add: assms(2) logged_seed split: option.splits)
  show ?thesis
    by (simp add: draw_prizes_run_def Let_def r assms(1) [symmetric] assms(2) [symmetric]
        weighted_sample_logged sample_logged choices_logged choice_loop_logged run_calls_def
        length_PRIZES split: sum.splits prod.splits)
qed

lemma run_calls_length:
  assumes "ws = (case weights of None \<Rightarrow> DEFAULT_WEIGHTS | Some v \<Rightarrow> v)"
    and "rng = (case seed of None \<Rightarrow> entropy | Some s \<Rightarrow> rng_seed ops s)"
    and "draw_prizes_run ops entropy quantity unique seed tiered weights = Inr (xs, g')"
  shows "length (run_calls ops rng quantity unique tiered ws) = nat quantity"
proof (cases "unique \<and> tiered")
  case True
  with assms have "weighted_sample_without_replacement ops PRIZES ws quantity rng = Inr (xs, g')"
    by (auto simp: draw_prizes_run_def Let_def split: if_splits)
  from weighted_sample_calls_length [OF this] True show ?thesis by (simp add: run_calls_def)
next
  case False
  then show ?thesis by (auto simp: run_calls_def)
qed

subsection \<open>The report of \<open>main\<close>\<close>

lemma print_prizes_stdout:
  "print_prizes i prizes con =
     con\<lparr>stdout := stdout con @
       map (\<lambda>j. '' '' @ str_nat (i + j) @ ''. '' @ prizes ! j @ [nl]) [0..<length prizes]\<rparr>"
proof (induction prizes arbitrary: i con)
  case Nil
  then show ?case by simp
next
  case (Cons p ps)
  have "map (\<lambda>j. '' '' @ str_nat (i + j) @ ''. '' @ (p # ps) ! j @ [nl]) [0..<length (p # ps)] =
          ('' '' @ str_nat i @ ''. '' @ p @ [nl]) #
          map (\<lambda>j. '' '' @ str_nat (Suc i + j) @ ''. '' @ ps ! j @ [nl]) [0..<length ps]"
  proof -
    have "[0..<length (p # ps)] = 0 # map Suc [0..<length ps]"
      by (simp add: upt_conv_Cons map_Suc_upt del: upt_Suc)
    then show ?thesis by (simp add: o_def)
  qed
  then show ?case by (simp add: Cons.IH print_def)
qed

lemma print_summary_stdout:
  "print_summary prizes ps con =
     con\<lparr>stdout := stdout con @
       map (\<lambda>p. '' - '' @ p @ '': '' @ str_nat (count_list prizes p) @ [nl])
         (filter (\<lambda>p. p \<in> set prizes) ps)\<rparr>"
proof (induction ps arbitrary: con)
  case Nil
  then show ?case by simp
next
  case (Cons p ps)
  show ?case
  proof (cases "p \<in> set prizes")
    case True
    then have "count_list prizes p \<noteq> 0" by (simp add: count_list_0_iff)
    with True show ?thesis by (simp add: Cons.IH print_def)
  next
    case False
    then have "count_list prizes p = 0" by (simp add: count_list_0_iff)
    with False show ?thesis by (simp add: Cons.IH)
  qed
qed

text \<open>The outcome of \<open>draw_prizes\<close> with the default weights, as \<open>main\<close> calls it.\<close>

lemma default_total: "\<not> fle (total_weight DEFAULT_WEIGHTS) (Finite 0) \<and> isfinite (total_weight DEFAULT_WEIGHTS)"
  by (simp add: total_weight_DEFAULT_WEIGHTS)

lemma draw_prizes_default_raises:
  assumes "rng_ok ops"
  shows "(\<exists>msg. draw_prizes ops entropy quantity unique seed tiered None = Inl (ValueError msg)) \<longleftrightarrow>
           quantity < 1 \<or> (unique \<and> 6 < quantity)"
proof -
  have ws: "DEFAULT_WEIGHTS = (case None of None \<Rightarrow> DEFAULT_WEIGHTS | Some v \<Rightarrow> v)" by simp
  from draw_prizes_outcome [OF assms ws, of entropy quantity unique seed tiered] default_total
  show ?thesis by (simp add: length_DEFAULT_WEIGHTS)
qed

lemma draw_prizes_default_overflow:
  assumes "rng_ok ops"
  shows "(\<exists>msg. draw_prizes ops entropy quantity unique seed tiered None = Inl (OverflowError msg)) \<longleftrightarrow>
           \<not> unique \<and> tiered \<and> PY_SSIZE_T_MAX < quantity"
proof -
  have ws: "DEFAULT_WEIGHTS = (case None of None \<Rightarrow> DEFAULT_WEIGHTS | Some v \<Rightarrow> v)" by simp
  have "PY_SSIZE_T_MAX < quantity \<Longrightarrow> 1 \<le> quantity" by (simp add: PY_SSIZE_T_MAX_def)
  with draw_prizes_outcome [OF assms ws, of entropy quantity unique seed tiered] default_total
  show ?thesis by (auto simp: length_DEFAULT_WEIGHTS)
qed

lemma draw_prizes_default_returns:
  assumes ok: "rng_ok ops" and q: "\<not> (quantity < 1 \<or> (unique \<and> 6 < quantity))"
    and o: "\<not> (\<not> unique \<and> tiered \<and> PY_SSIZE_T_MAX < quantity)"
  shows "\<exists>prizes. draw_prizes ops entropy quantity unique seed tiered None = Inr prizes \<and>
           int (length prizes) = quantity"
proof (cases unique)
  case True
  with q have "1 \<le> quantity" "quantity \<le> 6" by simp_all
  from draw_prizes_unique_ok [OF ok this, of DEFAULT_WEIGHTS None entropy seed tiered]
    sums_finite_DEFAULT_WEIGHTS True
  show ?thesis by (auto simp: length_DEFAULT_WEIGHTS)
next
  case False
  from q have q1: "1 \<le> quantity" by simp
  from False o default_total
  have "tiered \<longrightarrow> \<not> fle (total_weight DEFAULT_WEIGHTS) (Finite 0) \<and>
          isfinite (total_weight DEFAULT_WEIGHTS) \<and> quantity \<le> PY_SSIZE_T_MAX" by auto
  from draw_prizes_replacement_ok [OF ok q1 _ length_DEFAULT_WEIGHTS this, of None entropy seed] False
  show ?thesis by auto
qed

lemma main_draw_error:
  assumes "draw_prizes ops entropy quantity (arg_unique a) (arg_seed a) (\<not> arg_no_tiered a) None =
             Inl (ValueError msg)"
  shows "main_draw ops entropy a quantity con =
           (Inr 2, con\<lparr>stderr := stderr con @ [''Error: '' @ msg @ [nl]]\<rparr>)"
  using assms by (simp add: main_draw_def print_err_def)

lemma main_draw_overflow:
  assumes "draw_prizes ops entropy quantity (arg_unique a) (arg_seed a) (\<not> arg_no_tiered a) None =
             Inl (OverflowError msg)"
  shows "main_draw ops entropy a quantity con = (Inl (OverflowError msg), con)"
  using assms by (simp add: main_draw_def)

lemma main_draw_success:
  assumes d: "draw_prizes ops entropy quantity (arg_unique a) (arg_seed a) (\<not> arg_no_tiered a) None =
                Inr prizes"
  shows "main_draw ops entropy a quantity con =
           (Inr 0, con\<lparr>stdout := stdout con @
              [[nl] @ ''You bought: '' @ str_int quantity
                 @ '' prize(s). Here are your randomized prizes:'' @ [nl] @ [nl]] @
              map (\<lambda>j. '' '' @ str_nat (Suc j) @ ''. '' @ prizes ! j @ [nl]) [0..<length prizes] @
              [[nl] @ ''Summary:'' @ [nl]] @
              map (\<lambda>p. '' - '' @ p @ '': '' @ str_nat (count_list prizes p) @ [nl])
                (filter (\<lambda>p. p \<in> set prizes) PRIZES)\<rparr>)"
  by (simp add: main_draw_def d Let_def print_prizes_stdout print_summary_stdout print_def)

lemma main_with_quantity:
  assumes "(arg_quantity a = Some q \<and> pre = []) \<or>
           (arg_quantity a = None \<and> inp = Some raw \<and> int_of (strip raw) = Some q \<and>
            pre = [''Enter quantity (number of prizes bought): ''])"
  shows "main ops int_of entropy a inp = main_draw ops entropy a q \<lparr>stdout = pre, stderr = []\<rparr>"
  using assms by (auto simp: main_def)

lemma int_ascii_examples:
  "int_ascii (strip ''abc'') = None"
  "int_ascii (strip '' 2 '') = Some 2"
  "int_ascii (strip ''-3'') = Some (- 3)"
  by (simp_all add: int_ascii_def digits_value_def strip_def is_space_def is_digit_def)

subsection \<open>The frame of the sampler on the store\<close>

lemma lists_unchanged_refl: "lists_unchanged n h h"
  by (simp add: lists_unchanged_def)

lemma lists_unchanged_trans:
  "lists_unchanged n h1 h2 \<Longrightarrow> lists_unchanged n h2 h3 \<Longrightarrow> lists_unchanged n h1 h3"
  by (simp add: lists_unchanged_def)

lemma lists_unchanged_mono:
  "lists_unchanged n h h' \<Longrightarrow> m \<le> n \<Longrightarrow> lists_unchanged m h h'"
  by (simp add: lists_unchanged_def)

lemma new_strs_frame:
  "new_strs v h = (a, h') \<Longrightarrow>
   a = fresh h \<and> fresh h' = Suc (fresh h) \<and> lists_unchanged (fresh h) h h' \<and> gens h' = gens h"
  by (auto simp: new_strs_def lists_unchanged_def)

lemma new_nums_frame:
  "new_nums v h = (a, h') \<Longrightarrow>
   a = fresh h \<and> fresh h' = Suc (fresh h) \<and> lists_unchanged (fresh h) h h' \<and> gens h' = gens h"
  by (auto simp: new_nums_def lists_unchanged_def)

lemma new_gen_frame:
  "new_gen g h = (a, h') \<Longrightarrow>
   a = fresh h \<and> fresh h' = Suc (fresh h) \<and> unchanged_below (fresh h) h h' \<and>
   strs h' = strs h \<and> nums h' = nums h \<and> gens h' a = g"
  by (auto simp: new_gen_def lists_unchanged_def unchanged_below_def)

lemma random_h_frame:
  "random_h ops rng h = (u, h') \<Longrightarrow>
   strs h' = strs h \<and> nums h' = nums h \<and> fresh h' = fresh h \<and> screen h' = screen h \<and>
   (\<forall>a. a \<noteq> rng \<longrightarrow> gens h' a = gens h a) \<and> rng_random ops (gens h rng) = (u, gens h' rng)"
  by (auto simp: random_h_def split: prod.splits)

lemma randrange_h_frame:
  "randrange_h ops rng n h = (r, h') \<Longrightarrow>
   strs h' = strs h \<and> nums h' = nums h \<and> fresh h' = fresh h \<and> screen h' = screen h \<and>
   (\<forall>a. a \<noteq> rng \<longrightarrow> gens h' a = gens h a) \<and>
   (case randrange ops n (gens h rng) of
      Inl e \<Rightarrow> r = Inl e
    | Inr (idx, g') \<Rightarrow> r = Inr idx \<and> gens h' rng = g')"
  by (auto simp: randrange_h_def split: sum.splits prod.splits)

lemma pop_append_h_frame:
  assumes "pop_append_h pop w result i h = (r, h')"
    and "n \<le> pop" and "n \<le> w" and "n \<le> result"
  shows "lists_unchanged n h h' \<and> fresh h' = fresh h \<and> gens h' = gens h"
  using assms
  by (auto simp: pop_append_h_def lists_unchanged_def Let_def split: sum.splits prod.splits)

lemma same_lists: "strs h' = strs h \<Longrightarrow> nums h' = nums h \<Longrightarrow> fresh h' = fresh h \<Longrightarrow>
  screen h' = screen h \<Longrightarrow> lists_unchanged n h h'"
  by (simp add: lists_unchanged_def)

lemma draw_step_h_frame:
  assumes st: "draw_step_h ops pop w result rng h = (r, h')"
    and n: "n \<le> pop" "n \<le> w" "n \<le> result"
  shows "lists_unchanged n h h' \<and> fresh h' = fresh h \<and> (\<forall>a. a \<noteq> rng \<longrightarrow> gens h' a = gens h a)"
proof (cases "fle (py_sum (nums h w)) (Finite 0)")
  case True
  obtain r1 h1 where rr: "randrange_h ops rng (length (strs h pop)) h = (r1, h1)"
    by (cases "randrange_h ops rng (length (strs h pop)) h")
  note f1 = randrange_h_frame [OF rr]
  from f1 have l1: "lists_unchanged n h h1" by (simp add: same_lists)
  show ?thesis
  proof (cases r1)
    case (Inl e)
    with True rr st have "h' = h1" by (simp add: draw_step_h_def)
    with f1 l1 show ?thesis by simp
  next
    case (Inr idx)
    with True rr st have pa: "pop_append_h pop w result idx h1 = (r, h')"
      by (simp add: draw_step_h_def)
    from pop_append_h_frame [OF pa n] f1 l1 show ?thesis
      by (auto intro: lists_unchanged_trans)
  qed
next
  case False
  obtain u h1 where rr: "random_h ops rng h = (u, h1)" by (cases "random_h ops rng h")
  note f1 = random_h_frame [OF rr]
  from f1 have l1: "lists_unchanged n h h1" by (simp add: same_lists)
  show ?thesis
  proof (cases "scan (fmul u (py_sum (nums h w))) (Finite 0) 0 (nums h1 w)")
    case None
    with False rr st have "h' = h1" by (simp add: draw_step_h_def Let_def)
    with f1 l1 show ?thesis by simp
  next
    case (Some i)
    with False rr st have pa: "pop_append_h pop w result i h1 = (r, h')"
      by (simp add: draw_step_h_def Let_def)
    from pop_append_h_frame [OF pa n] f1 l1 show ?thesis
      by (auto intro: lists_unchanged_trans)
  qed
qed

lemma sample_loop_h_frame:
  assumes "n \<le> pop" and "n \<le> w" and "n \<le> result"
  shows "sample_loop_h ops pop w result rng k h = (r, h') \<Longrightarrow>
         lists_unchanged n h h' \<and> fresh h' = fresh h \<and> (\<forall>a. a \<noteq> rng \<longrightarrow> gens h' a = gens h a)"
proof (induction k arbitrary: h)
  case 0
  then show ?case by (simp add: lists_unchanged_refl)
next
  case (Suc k)
  obtain r1 h1 where st: "draw_step_h ops pop w result rng h = (r1, h1)"
    by (cases "draw_step_h ops pop w result rng h")
  note f1 = draw_step_h_frame [OF st assms]
  show ?case
  proof (cases r1)
    case None
    with Suc.prems st have "sample_loop_h ops pop w result rng k h1 = (r, h')" by simp
    from Suc.IH [OF this] f1 show ?thesis by (auto intro: lists_unchanged_trans)
  next
    case (Some e)
    with Suc.prems st have "h' = h1" by simp
    with f1 show ?thesis by simp
  qed
qed

lemma weighted_sample_h_frame:
  assumes "weighted_sample_without_replacement_h ops population weights k rng h = (r, h')"
  shows "lists_unchanged (fresh h) h h' \<and> (\<forall>a. a \<noteq> rng \<longrightarrow> gens h' a = gens h a)"
proof (cases "k < 0 \<or> k > int (length (strs h population))")
  case True
  with assms show ?thesis
    by (auto simp: weighted_sample_without_replacement_h_def lists_unchanged_refl)
next
  case False
  obtain pop h1 where a1: "new_strs (strs h population) h = (pop, h1)"
    by (cases "new_strs (strs h population) h")
  obtain w h2 where a2: "new_nums (nums h1 weights) h1 = (w, h2)"
    by (cases "new_nums (nums h1 weights) h1")
  obtain result h3 where a3: "new_strs [] h2 = (result, h3)" by (cases "new_strs [] h2")
  obtain r1 h4 where lp: "sample_loop_h ops pop w result rng (nat k) h3 = (r1, h4)"
    by (cases "sample_loop_h ops pop w result rng (nat k) h3")
  from False assms a1 a2 a3 lp have h': "h' = h4"
    by (auto simp: weighted_sample_without_replacement_h_def split: option.splits)
  note f1 = new_strs_frame [OF a1] and f2 = new_nums_frame [OF a2] and f3 = new_strs_frame [OF a3]
  from f1 f2 f3 have ge: "fresh h \<le> pop" "fresh h \<le> w" "fresh h \<le> result" by simp_all
  note f4 = sample_loop_h_frame [OF ge lp]
  from f1 have u1: "lists_unchanged (fresh h) h h1" by simp
  from f2 f1 have u2: "lists_unchanged (fresh h) h1 h2" by (auto intro: lists_unchanged_mono)
  from f3 f2 f1 have u3: "lists_unchanged (fresh h) h2 h3" by (auto intro: lists_unchanged_mono)
  from u1 u2 u3 f4 h' have "lists_unchanged (fresh h) h h'" by (blast intro: lists_unchanged_trans)
  moreover from f1 f2 f3 f4 h' have "\<forall>a. a \<noteq> rng \<longrightarrow> gens h' a = gens h a" by simp
  ultimately show ?thesis by simp
qed

lemma method_h_frame:
  "method_h rng y h = (x, h') \<Longrightarrow>
   lists_unchanged (fresh h) h h' \<and> (\<forall>a. a \<noteq> rng \<longrightarrow> gens h' a = gens h a)"
  by (auto simp: method_h_def new_strs_def lists_unchanged_def split: sum.splits prod.splits)

lemma draw_prizes_h_frame:
  fixes ops :: "'g rng_ops"
  assumes "draw_prizes_h ops entropy quantity unique seed tiered weights h = (r, h')"
  shows "unchanged_below (fresh h) h h'"
proof (cases "quantity < 1")
  case True
  with assms show ?thesis
    by (simp add: draw_prizes_h_def unchanged_below_def lists_unchanged_refl)
next
  case False
  define ws where "ws = (case weights of None \<Rightarrow> DEFAULT_WEIGHTS_ref | Some a \<Rightarrow> a)"
  obtain rng h0 where g: "new_gen (case seed of None \<Rightarrow> entropy | Some s \<Rightarrow> rng_seed ops s) h = (rng, h0)"
    by (cases "new_gen (case seed of None \<Rightarrow> entropy | Some s \<Rightarrow> rng_seed ops s) h")
  note f0 = new_gen_frame [OF g]
  have rest: "lists_unchanged (fresh h0) h0 h' \<and> (\<forall>a. a \<noteq> rng \<longrightarrow> gens h' a = gens h0 a)"
  proof -
    consider (err) "h' = h0"
      | (wswr) x where "weighted_sample_without_replacement_h ops PRIZES_ref ws quantity rng h0 = (x, h')"
      | (lib) x and y :: "error + string list \<times> 'g" where "method_h rng y h0 = (x, h')"
      using assms False g
      by (auto simp: draw_prizes_h_def Let_def ws_def split: if_splits prod.splits)
    then show ?thesis
    proof cases
      case err
      then show ?thesis by (simp add: lists_unchanged_refl)
    next
      case wswr
      then show ?thesis by (rule weighted_sample_h_frame)
    next
      case lib
      then show ?thesis by (rule method_h_frame)
    qed
  qed
  from f0 have l0: "lists_unchanged (fresh h) h h0" and g0: "\<forall>a<fresh h. gens h0 a = gens h a"
    and fr: "fresh h \<le> fresh h0" and rg: "rng = fresh h"
    by (simp_all add: unchanged_below_def)
  from rest fr have "lists_unchanged (fresh h) h0 h'" by (auto intro: lists_unchanged_mono)
  with l0 have "lists_unchanged (fresh h) h h'" by (rule lists_unchanged_trans)
  moreover from rest g0 rg have "\<forall>a<fresh h. gens h' a = gens h a" by auto
  ultimately show ?thesis by (simp add: unchanged_below_def)
qed

subsection \<open>The store model computes what the value model computes\<close>

lemma pop_append_h_sim:
  assumes "pop \<noteq> result" and "pop_append_h pop w result i h = (r, h')"
  shows "case pop_at (strs h pop) i of
           Inl e \<Rightarrow> r = Some e
         | Inr (x, p') \<Rightarrow>
             (case pop_at (nums h w) i of
                Inl e \<Rightarrow> r = Some e
              | Inr (y, w') \<Rightarrow>
                  r = None \<and> strs h' pop = p' \<and> nums h' w = w' \<and>
                  strs h' result = strs h result @ [x])"
  using assms
  by (auto simp: pop_append_h_def Let_def split: sum.splits prod.splits)

lemma draw_step_h_sim:
  assumes ne: "pop \<noteq> result" and st: "draw_step_h ops pop w result rng h = (r, h')"
  shows "case draw_step ops (strs h pop, nums h w, strs h result, gens h rng) of
           Inl e \<Rightarrow> r = Some e
         | Inr (p', w', res', g'') \<Rightarrow>
             r = None \<and> gens h' rng = g'' \<and> strs h' pop = p' \<and> nums h' w = w' \<and>
             strs h' result = res'"
proof (cases "fle (py_sum (nums h w)) (Finite 0)")
  case True
  obtain r1 h1 where rr: "randrange_h ops rng (length (strs h pop)) h = (r1, h1)"
    by (cases "randrange_h ops rng (length (strs h pop)) h")
  note f1 = randrange_h_frame [OF rr]
  show ?thesis
  proof (cases r1)
    case (Inl e)
    with True rr st f1 show ?thesis
      by (auto simp: draw_step_h_def draw_step_def split: sum.splits prod.splits)
  next
    case (Inr idx)
    with True rr st have pa: "pop_append_h pop w result idx h1 = (r, h')"
      by (simp add: draw_step_h_def)
    from pop_append_h_frame [OF pa, of 0] have "gens h' = gens h1" by simp
    with pop_append_h_sim [OF ne pa] True Inr f1 show ?thesis
      by (auto simp: draw_step_def split: sum.splits prod.splits)
  qed
next
  case False
  obtain u h1 where rr: "random_h ops rng h = (u, h1)" by (cases "random_h ops rng h")
  note f1 = random_h_frame [OF rr]
  show ?thesis
  proof (cases "scan (fmul u (py_sum (nums h w))) (Finite 0) 0 (nums h w)")
    case None
    with False rr st f1 show ?thesis by (simp add: draw_step_h_def draw_step_def Let_def)
  next
    case (Some i)
    with False rr st f1 have pa: "pop_append_h pop w result i h1 = (r, h')"
      by (simp add: draw_step_h_def Let_def)
    from pop_append_h_frame [OF pa, of 0] have "gens h' = gens h1" by simp
    with pop_append_h_sim [OF ne pa] False Some f1 show ?thesis
      by (auto simp: draw_step_def Let_def split: sum.splits prod.splits)
  qed
qed

lemma sample_loop_h_sim:
  assumes ne: "pop \<noteq> result"
  shows "sample_loop_h ops pop w result rng k h = (r, h') \<Longrightarrow>
         (case sample_loop ops k (strs h pop, nums h w, strs h result, gens h rng) of
            Inl e \<Rightarrow> r = Some e
          | Inr (p', w', res', g'') \<Rightarrow> r = None \<and> gens h' rng = g'' \<and> strs h' result = res')"
proof (induction k arbitrary: h)
  case 0
  then show ?case by simp
next
  case (Suc k)
  obtain r1 h1 where st: "draw_step_h ops pop w result rng h = (r1, h1)"
    by (cases "draw_step_h ops pop w result rng h")
  note sim = draw_step_h_sim [OF ne st]
  show ?case
  proof (cases "draw_step ops (strs h pop, nums h w, strs h result, gens h rng)")
    case (Inl e)
    with sim have "r1 = Some e" by simp
    with Suc.prems st Inl show ?thesis by simp
  next
    case (Inr s1)
    obtain p1 w1 res1 g2 where s1: "s1 = (p1, w1, res1, g2)" by (cases s1)
    with sim Inr have eq: "r1 = None" "gens h1 rng = g2" "strs h1 pop = p1" "nums h1 w = w1"
      "strs h1 result = res1" by simp_all
    with Suc.prems st have "sample_loop_h ops pop w result rng k h1 = (r, h')" by simp
    from Suc.IH [OF this] Inr s1 eq show ?thesis by simp
  qed
qed

lemma weighted_sample_h_sim:
  assumes "weighted_sample_without_replacement_h ops population weights k rng h = (r, h')"
    and "population < fresh h" and "weights < fresh h"
  shows "case weighted_sample_without_replacement ops (strs h population) (nums h weights) k
                (gens h rng) of
           Inl e \<Rightarrow> r = Inl e
         | Inr (xs, g'') \<Rightarrow>
             (\<exists>a. r = Inr a \<and> fresh h \<le> a \<and> strs h' a = xs \<and> gens h' rng = g'')"
proof (cases "k < 0 \<or> k > int (length (strs h population))")
  case True
  with assms(1) show ?thesis
    by (auto simp: weighted_sample_without_replacement_h_def weighted_sample_without_replacement_def)
next
  case False
  obtain pop h1 where a1: "new_strs (strs h population) h = (pop, h1)"
    by (cases "new_strs (strs h population) h")
  obtain w h2 where a2: "new_nums (nums h1 weights) h1 = (w, h2)"
    by (cases "new_nums (nums h1 weights) h1")
  obtain result h3 where a3: "new_strs [] h2 = (result, h3)" by (cases "new_strs [] h2")
  obtain r1 h4 where lp: "sample_loop_h ops pop w result rng (nat k) h3 = (r1, h4)"
    by (cases "sample_loop_h ops pop w result rng (nat k) h3")
  from False assms(1) a1 a2 a3 lp
  have res: "r = (case r1 of Some e \<Rightarrow> Inl e | None \<Rightarrow> Inr result)" "h' = h4"
    by (auto simp: weighted_sample_without_replacement_h_def split: option.splits)
  from a1 a2 a3 assms(2,3)
  have st: "strs h3 pop = strs h population" "nums h3 w = nums h weights" "strs h3 result = []"
    "gens h3 = gens h"
    and ne: "pop \<noteq> result" and ge: "fresh h \<le> result"
    by (auto simp: new_strs_def new_nums_def)
  from sample_loop_h_sim [OF ne lp] st res False ge show ?thesis
    by (auto simp: weighted_sample_without_replacement_def split: sum.splits prod.splits)
qed

lemma method_h_sim:
  "method_h rng y h = (r, h') \<Longrightarrow>
   (case returned y of Inl e \<Rightarrow> r = Inl e
    | Inr xs \<Rightarrow> (\<exists>a. r = Inr a \<and> fresh h \<le> a \<and> strs h' a = xs))"
  by (auto simp: method_h_def returned_def new_strs_def split: sum.splits prod.splits)

lemma draw_prizes_h_sim:
  fixes ops :: "'g rng_ops"
  assumes run: "draw_prizes_h ops entropy quantity unique seed tiered weights h = (r, h')"
    and mod: "strs h PRIZES_ref = PRIZES" "nums h DEFAULT_WEIGHTS_ref = DEFAULT_WEIGHTS"
      "2 \<le> fresh h"
    and arg: "case weights of None \<Rightarrow> True | Some a \<Rightarrow> a < fresh h"
  shows "case draw_prizes ops entropy quantity unique seed tiered (map_option (nums h) weights) of
           Inl e \<Rightarrow> r = Inl e
         | Inr xs \<Rightarrow> (\<exists>a. r = Inr a \<and> fresh h \<le> a \<and> strs h' a = xs)"
proof -
  define g0 where "g0 = (case seed of None \<Rightarrow> entropy | Some s \<Rightarrow> rng_seed ops s)"
  define wa where "wa = (case weights of None \<Rightarrow> DEFAULT_WEIGHTS_ref | Some a \<Rightarrow> a)"
  define ws where "ws = (case map_option (nums h) weights of None \<Rightarrow> DEFAULT_WEIGHTS | Some v \<Rightarrow> v)"
  from mod(2) have ws: "nums h wa = ws" by (simp add: wa_def ws_def split: option.splits)
  from mod(3) arg have wl: "wa < fresh h" and pl: "PRIZES_ref < fresh h"
    by (auto simp: wa_def DEFAULT_WEIGHTS_ref_def PRIZES_ref_def split: option.splits)
  show ?thesis
  proof (cases "quantity < 1")
    case True
    with run show ?thesis by (simp add: draw_prizes_h_def draw_prizes_def draw_prizes_run_def returned_def)
  next
    case q: False
    obtain rng h0 where g: "new_gen g0 h = (rng, h0)" by (cases "new_gen g0 h")
    from new_gen_frame [OF g] have h0: "strs h0 = strs h" "nums h0 = nums h" "gens h0 rng = g0"
      "fresh h0 = Suc (fresh h)" by blast+
    from wl pl h0 have wl0: "wa < fresh h0" and pl0: "PRIZES_ref < fresh h0" by simp_all
    have pure: "draw_prizes ops entropy quantity unique seed tiered (map_option (nums h) weights) =
           returned
           (if length ws \<noteq> length PRIZES then
              Inl (ValueError ''weights length must match number of prizes'')
            else if unique then
              (if quantity > int (length PRIZES) then
                 Inl (ValueError (''quantity must be <= '' @ str_nat (length PRIZES)
                        @ '' when drawing unique prizes''))
               else if tiered then weighted_sample_without_replacement ops PRIZES ws quantity g0
               else sample ops PRIZES quantity g0)
            else
              (if tiered then choices ops PRIZES ws quantity g0
               else choice_loop ops PRIZES (nat quantity) g0))"
      unfolding draw_prizes_def draw_prizes_run_def Let_def ws_def [symmetric] g0_def [symmetric]
      using q by simp
    have "draw_prizes_h ops entropy quantity unique seed tiered weights h =
           (if length ws \<noteq> length PRIZES then
              (Inl (ValueError ''weights length must match number of prizes''), h0)
            else if unique then
              (if quantity > int (length PRIZES) then
                 (Inl (ValueError (''quantity must be <= '' @ str_nat (length PRIZES)
                        @ '' when drawing unique prizes'')), h0)
               else if tiered then
                 weighted_sample_without_replacement_h ops PRIZES_ref wa quantity rng h0
               else method_h rng (sample ops PRIZES quantity g0) h0)
            else
              (if tiered then method_h rng (choices ops PRIZES ws quantity g0) h0
               else method_h rng (choice_loop ops PRIZES (nat quantity) g0) h0))"
      unfolding draw_prizes_h_def Let_def wa_def [symmetric] g0_def [symmetric]
      using q by (simp add: g h0 ws mod(1))
    with run have store: "(r, h') =
           (if length ws \<noteq> length PRIZES then
              (Inl (ValueError ''weights length must match number of prizes''), h0)
            else if unique then
              (if quantity > int (length PRIZES) then
                 (Inl (ValueError (''quantity must be <= '' @ str_nat (length PRIZES)
                        @ '' when drawing unique prizes'')), h0)
               else if tiered then
                 weighted_sample_without_replacement_h ops PRIZES_ref wa quantity rng h0
               else method_h rng (sample ops PRIZES quantity g0) h0)
            else
              (if tiered then method_h rng (choices ops PRIZES ws quantity g0) h0
               else method_h rng (choice_loop ops PRIZES (nat quantity) g0) h0))"
      by simp
    show ?thesis
    proof (cases "length ws \<noteq> length PRIZES \<or> (unique \<and> quantity > int (length PRIZES))")
      case True
      with pure store show ?thesis by (auto simp: returned_def)
    next
      case False
      show ?thesis
      proof (cases "unique \<and> tiered")
        case True
        with store False
        have w: "weighted_sample_without_replacement_h ops PRIZES_ref wa quantity rng h0 = (r, h')"
          by simp
        from weighted_sample_h_sim [OF w pl0 wl0] mod(1) ws h0 pure True False show ?thesis
          by (auto simp: returned_def split: sum.splits prod.splits)
      next
        case nt: False
        with False obtain y :: "error + string list \<times> 'g" where y: "method_h rng y h0 = (r, h')"
          and p: "draw_prizes ops entropy quantity unique seed tiered (map_option (nums h) weights) =
                    returned y"
          using store pure by (auto split: if_splits)
        from method_h_sim [OF y] p h0 show ?thesis by (auto split: sum.splits)
      qed
    qed
  qed
qed

subsection \<open>A weight of zero\<close>






text \<open>The weights \<open>[0, 0, 0, 0, 0, 1]\<close>.\<close>

lemma is_double_one: "is_double (Finite 1)"
  using is_double_of_int [of 1] by simp

lemma fadd_zero_one: "fadd (Finite 0) (Finite 1) = Finite 1"
  using is_double_one by (rule fadd_zero_left)

lemma py_sum_last_one: "py_sum (replicate n (Finite 0) @ [Finite 1]) = Finite 1"
proof -
  have "foldl fadd (Finite 0) (replicate n (Finite 0)) = Finite 0"
    using py_sum_zeros [of n] by (simp only: py_sum_def)
  then show ?thesis by (simp only: py_sum_def foldl_append foldl.simps fadd_zero_one)
qed

lemma weights_last_one: "[Finite 0, Finite 0, Finite 0, Finite 0, Finite 0, Finite 1] =
    replicate 5 (Finite 0) @ [Finite 1]"
  by (simp add: eval_nat_numeral)

lemma py_sum_one_of_six: "py_sum [Finite 0, Finite 0, Finite 0, Finite 0, Finite 0, Finite 1] = Finite 1"
  by (simp only: weights_last_one py_sum_last_one)


text \<open>Weights that are all 0: every step is a fallback step.\<close>

lemma weighted_sample_zeros:
  assumes ok: "rng_ok ops" and k: "0 \<le> k" "k \<le> int (length population)"
  shows "\<exists>xs g'. weighted_sample_without_replacement ops population
                   (replicate (length population) (Finite 0)) k g = Inr (xs, g') \<and>
                 int (length xs) = k \<and> set xs \<subseteq> set population"
proof -
  have len: "length population = length (replicate (length population) (Finite 0))" by simp
  have fin: "\<forall>ws'. subseq ws' (replicate (length population) (Finite 0)) \<longrightarrow> isfinite (py_sum ws')"
    using sums_finite_zeros [of "length population"] by (simp only: sums_finite_iff)
  from weighted_sample_full [OF ok len k fin, of g] obtain xs g' rest
    where r: "weighted_sample_without_replacement ops population
                (replicate (length population) (Finite 0)) k g = Inr (xs, g')"
      and l: "length xs = nat k" by blast
  from weighted_sample_subset [OF r] r l k show ?thesis by auto
qed

subsection \<open>Runs of the model on concrete inputs\<close>



lemma demo_random_0: "rng_random demo_rng 0 = (Finite 0, 3)"
  by (simp add: demo_random demo_next_def)

lemma demo_random_3: "rng_random demo_rng 3 = (Finite (3 / 16), 2)"
  by (simp add: demo_random demo_next_def)

lemma demo_random_4: "rng_random demo_rng 4 = (Finite (1 / 4), 7)"
  by (simp add: demo_random demo_next_def)



text \<open>The weights \<open>[0, 0, 0, 0, 0, 1]\<close> and a first draw of 0.0.\<close>

lemma fmul_zero_one: "fmul (Finite 0) (Finite 1) = Finite 0"
  by (simp add: round_double_zero)

lemma fmul_3_16_one: "fmul (Finite (3 / 16)) (Finite 1) = Finite (3 / 16)"
  using sixteenth_is_double [of 3] by (intro fmul_one) simp

lemma mod_Suc_Suc_0: "n mod Suc (Suc 0) = n mod 2"
  by (simp only: numeral_2_eq_2)

lemma py_sum_small:
  "py_sum [Finite 0, Finite 0, Finite 0, Finite 0, Finite 1] = Finite 1"
  "py_sum [Finite 0, Finite 0, Finite 0, Finite 0] = Finite 0"
  "py_sum [Finite 0, Finite 0, Finite 0] = Finite 0"
  "py_sum [Finite 0, Finite 0] = Finite 0"
  "py_sum [Finite 0] = Finite 0"
  by (simp_all only: py_sum_def foldl.simps fadd_zero_zero fadd_zero_one)

lemma zero_draw_steps:
  "draw_step demo_rng (PRIZES, [Finite 0, Finite 0, Finite 0, Finite 0, Finite 0, Finite 1], [], 0) =
     Inr ([''slogan'', ''sticker set'', ''notebook'', ''pin button'', ''postcard''],
          [Finite 0, Finite 0, Finite 0, Finite 0, Finite 1], [''photo frame''], 3)"
  "draw_step demo_rng ([''slogan'', ''sticker set'', ''notebook'', ''pin button'', ''postcard''],
          [Finite 0, Finite 0, Finite 0, Finite 0, Finite 1], [''photo frame''], 3) =
     Inr ([''slogan'', ''sticker set'', ''notebook'', ''pin button''],
          [Finite 0, Finite 0, Finite 0, Finite 0], [''photo frame'', ''postcard''], 2)"
  "draw_step demo_rng ([''slogan'', ''sticker set'', ''notebook'', ''pin button''],
          [Finite 0, Finite 0, Finite 0, Finite 0], [''photo frame'', ''postcard''], 2) =
     Inr ([''slogan'', ''sticker set'', ''pin button''],
          [Finite 0, Finite 0, Finite 0], [''photo frame'', ''postcard'', ''notebook''], 13)"
  "draw_step demo_rng ([''slogan'', ''sticker set'', ''pin button''],
          [Finite 0, Finite 0, Finite 0], [''photo frame'', ''postcard'', ''notebook''], 13) =
     Inr ([''slogan'', ''pin button''],
          [Finite 0, Finite 0], [''photo frame'', ''postcard'', ''notebook'', ''sticker set''], 4)"
  "draw_step demo_rng ([''slogan'', ''pin button''],
          [Finite 0, Finite 0], [''photo frame'', ''postcard'', ''notebook'', ''sticker set''], 4) =
     Inr ([''pin button''],
          [Finite 0], [''photo frame'', ''postcard'', ''notebook'', ''sticker set'', ''slogan''], 7)"
  "draw_step demo_rng ([''pin button''],
          [Finite 0], [''photo frame'', ''postcard'', ''notebook'', ''sticker set'', ''slogan''], 7) =
     Inr ([], [], [''photo frame'', ''postcard'', ''notebook'', ''sticker set'', ''slogan'',
                   ''pin button''], 6)"
  by (simp_all add: draw_step_def Let_def py_sum_one_of_six py_sum_small demo_random_0 demo_random_3
      demo_randbelow demo_next_def randrange_def fmul_zero_one fmul_3_16_one fadd_zero_zero
      fadd_zero_one pop_at_def PRIZES_def mod_Suc_Suc_0 del: fadd.simps fmul.simps)


text \<open>Six weights of 0 in a tiered draw with replacement.\<close>

lemma accumulate_Nil_iff: "accumulate ws = [] \<longleftrightarrow> ws = []"
  by (cases ws) simp_all

lemma total_weight_zeros:
  "total_weight [Finite 0, Finite 0, Finite 0, Finite 0, Finite 0, Finite 0] = Finite 0"
  by (simp add: total_weight_def fadd_zero_zero del: fadd.simps)

lemma zero_total_run:
  "draw_prizes_run ops entropy 1 False seed True
     (Some [Finite 0, Finite 0, Finite 0, Finite 0, Finite 0, Finite 0]) =
     Inl (ValueError ''Total of weights must be greater than zero'')"
  by (simp add: draw_prizes_run_def Let_def length_PRIZES choices_def total_weight_zeros
      length_accumulate accumulate_Nil_iff del: accumulate.simps)

text \<open>The default weights and a quantity of \<open>2 ^ 63\<close>.\<close>

lemma overflow_run:
  "draw_prizes_run ops entropy (2 ^ 63) False seed True None =
     Inl (OverflowError ''Python int too large to convert to C ssize_t'')"
  by (simp add: draw_prizes_run_def Let_def length_PRIZES length_DEFAULT_WEIGHTS choices_def
      length_accumulate accumulate_Nil_iff total_weight_DEFAULT_WEIGHTS PY_SSIZE_T_MAX_def
      DEFAULT_WEIGHTS_def [THEN arg_cong, of "\<lambda>ws. ws = []"]
      del: accumulate.simps)


text \<open>A step on weights 4, 4, 8 with the draw on the first boundary.\<close>

lemma py_sum_4_4_8: "py_sum [Finite 4, Finite 4, Finite 8] = Finite 16"
proof -
  have "fadd (Finite 0) (Finite 4) = Finite 4" using fadd_int [of 0 4] by (simp del: fadd.simps)
  moreover have "fadd (Finite 4) (Finite 4) = Finite 8" using fadd_int [of 4 4] by (simp del: fadd.simps)
  moreover have "fadd (Finite 8) (Finite 8) = Finite 16" using fadd_int [of 8 8] by (simp del: fadd.simps)
  ultimately show ?thesis by (simp only: py_sum_def foldl.simps)
qed

lemma fmul_quarter_16: "fmul (Finite (1 / 4)) (Finite 16) = Finite 4"
proof -
  have "is_double (Finite (of_int 4))" by (rule is_double_of_int) simp
  then have "round_double 4 = Finite 4" using round_double_exact [of 4] by simp
  then show ?thesis by simp
qed

lemma boundary_step:
  "draw_step demo_rng ([''a'', ''b'', ''c''], [Finite 4, Finite 4, Finite 8], [], 4) =
     Inr ([''b'', ''c''], [Finite 4, Finite 8], [''a''], 7)"
proof -
  have "fadd (Finite 0) (Finite 4) = Finite 4" using fadd_int [of 0 4] by (simp del: fadd.simps)
  then show ?thesis
    by (simp add: draw_step_def py_sum_4_4_8 demo_random_4 fmul_quarter_16 pop_at_def
        del: fadd.simps fmul.simps)
qed

lemma fallback_step_example:
  "draw_step demo_rng ([''a'', ''b'', ''c''], [Finite 0, Finite 0, Finite 0], [], 5) =
     Inr ([''a'', ''b''], [Finite 0, Finite 0], [''c''], 12)"
  by (simp add: draw_step_def Let_def py_sum_small randrange_def demo_randbelow demo_next_def
      pop_at_def)

lemma three_step_run:
  "draw_prizes_run demo_rng entropy 3 True (Some 0) True
     (Some [Finite 0, Finite 0, Finite 0, Finite 0, Finite 0, Finite 1]) =
     Inr ([''photo frame'', ''postcard'', ''notebook''], 13)"
proof -
  have "sample_loop demo_rng (Suc (Suc (Suc 0)))
          (PRIZES, [Finite 0, Finite 0, Finite 0, Finite 0, Finite 0, Finite 1], [], 0) =
          Inr ([''slogan'', ''sticker set'', ''pin button''], [Finite 0, Finite 0, Finite 0],
               [''photo frame'', ''postcard'', ''notebook''], 13)"
    by (simp only: sample_loop.simps zero_draw_steps sum.case)
  moreover have "Suc (Suc (Suc 0)) = nat 3" by simp
  ultimately have "sample_loop demo_rng (nat 3)
          (PRIZES, [Finite 0, Finite 0, Finite 0, Finite 0, Finite 0, Finite 1], [], 0) =
          Inr ([''slogan'', ''sticker set'', ''pin button''], [Finite 0, Finite 0, Finite 0],
               [''photo frame'', ''postcard'', ''notebook''], 13)"
    by (simp only:)
  moreover have "rng_seed demo_rng 0 = 0" by (simp add: demo_rng_def)
  ultimately show ?thesis
    by (simp add: draw_prizes_run_def Let_def length_PRIZES weighted_sample_without_replacement_def
        del: sample_loop.simps)
qed

lemma three_step_calls:
  "run_calls demo_rng (rng_seed demo_rng 0) 3 True True
     [Finite 0, Finite 0, Finite 0, Finite 0, Finite 0, Finite 1] =
     [CallRandom, CallRandom, CallRandbelow 4]"
proof -
  have c: "step_call (PRIZES, [Finite 0, Finite 0, Finite 0, Finite 0, Finite 0, Finite 1], [], 0::nat) =
             CallRandom"
    "step_call ([''slogan'', ''sticker set'', ''notebook'', ''pin button'', ''postcard''],
          [Finite 0, Finite 0, Finite 0, Finite 0, Finite 1], [''photo frame''], 3::nat) = CallRandom"
    "step_call ([''slogan'', ''sticker set'', ''notebook'', ''pin button''],
          [Finite 0, Finite 0, Finite 0, Finite 0], [''photo frame'', ''postcard''], 2::nat) =
       CallRandbelow 4"
    by (simp_all add: step_call_def py_sum_one_of_six py_sum_small)
  have "sampler_calls demo_rng (Suc (Suc (Suc 0)))
          (PRIZES, [Finite 0, Finite 0, Finite 0, Finite 0, Finite 0, Finite 1], [], 0) =
          [CallRandom, CallRandom, CallRandbelow 4]"
    by (simp only: sampler_calls.simps zero_draw_steps sum.case c)
  moreover have "Suc (Suc (Suc 0)) = nat 3" by simp
  ultimately have "sampler_calls demo_rng (nat 3)
          (PRIZES, [Finite 0, Finite 0, Finite 0, Finite 0, Finite 0, Finite 1], [], 0) =
          [CallRandom, CallRandom, CallRandbelow 4]"
    by (simp only:)
  moreover have "rng_seed demo_rng 0 = 0" by (simp add: demo_rng_def)
  ultimately show ?thesis by (simp add: run_calls_def del: sampler_calls.simps)
qed

lemma one_choice_run: "draw_prizes demo_rng 0 1 False (Some 7) False None = Inr [''slogan'']"
  by (simp add: draw_prizes_def draw_prizes_run_def Let_def returned_def choice_def PRIZES_def
      DEFAULT_WEIGHTS_def demo_rng_def demo_next_def)

text \<open>The store \<open>module_world\<close>.\<close>

lemma module_world_simps:
  "fresh (module_world g) = 3" "strs (module_world g) PRIZES_ref = PRIZES"
  "nums (module_world g) DEFAULT_WEIGHTS_ref = DEFAULT_WEIGHTS"
  "gens (module_world g) a = g"
  "screen (module_world g) = \<lparr>stdout = [], stderr = []\<rparr>"
  "PRIZES_ref < 3" "DEFAULT_WEIGHTS_ref < 3" "caller_rng < 3"
  by (simp_all add: module_world_def PRIZES_ref_def DEFAULT_WEIGHTS_ref_def caller_rng_def)

lemma py_sum_DEFAULT_WEIGHTS: "py_sum DEFAULT_WEIGHTS = Finite 70"
proof -
  have "fadd (Finite 0) (Finite 1) = Finite 1" by (rule fadd_zero_one)
  moreover have "fadd (Finite 1) (Finite 3) = Finite 4" using fadd_int [of 1 3] by (simp del: fadd.simps)
  moreover have "fadd (Finite 4) (Finite 6) = Finite 10" using fadd_int [of 4 6] by (simp del: fadd.simps)
  moreover have "fadd (Finite 10) (Finite 10) = Finite 20" using fadd_int [of 10 10] by (simp del: fadd.simps)
  moreover have "fadd (Finite 20) (Finite 20) = Finite 40" using fadd_int [of 20 20] by (simp del: fadd.simps)
  moreover have "fadd (Finite 40) (Finite 30) = Finite 70" using fadd_int [of 40 30] by (simp del: fadd.simps)
  ultimately show ?thesis by (simp only: py_sum_def DEFAULT_WEIGHTS_def foldl.simps)
qed

text \<open>A weighted step leaves the generator as \<open>random()\<close> leaves it.\<close>

lemma one_default_draw:
  "\<exists>xs. weighted_sample_without_replacement demo_rng PRIZES DEFAULT_WEIGHTS 1 3 = Inr (xs, 2)"
proof -
  have len: "length PRIZES = length DEFAULT_WEIGHTS"
    by (simp add: length_PRIZES length_DEFAULT_WEIGHTS)
  have nb: "\<not> fle (py_sum DEFAULT_WEIGHTS) (Finite 0)" by (simp add: py_sum_DEFAULT_WEIGHTS)
  from draw_step_weighted [OF len nb demo_random_3, of "[]"] obtain pop' w' xs
    where "draw_step demo_rng (PRIZES, DEFAULT_WEIGHTS, [], 3) = Inr (pop', w', xs, 2)" by blast
  then have "sample_loop demo_rng (Suc 0) (PRIZES, DEFAULT_WEIGHTS, [], 3) = Inr (pop', w', xs, 2)"
    by simp
  moreover have "nat 1 = Suc 0" by simp
  ultimately show ?thesis
    by (simp add: weighted_sample_without_replacement_def length_PRIZES del: sample_loop.simps)
qed

lemma one_default_draw_h:
  "gens (snd (weighted_sample_without_replacement_h demo_rng PRIZES_ref DEFAULT_WEIGHTS_ref 1
                caller_rng (module_world 3))) caller_rng = 2"
proof -
  obtain r h' where run: "weighted_sample_without_replacement_h demo_rng PRIZES_ref
      DEFAULT_WEIGHTS_ref 1 caller_rng (module_world 3) = (r, h')"
    by (cases "weighted_sample_without_replacement_h demo_rng PRIZES_ref DEFAULT_WEIGHTS_ref 1
                 caller_rng (module_world 3)")
  have p: "PRIZES_ref < fresh (module_world (3::nat))" and w: "DEFAULT_WEIGHTS_ref < fresh (module_world (3::nat))"
    by (simp_all add: module_world_simps)
  from one_default_draw obtain xs
    where v: "weighted_sample_without_replacement demo_rng PRIZES DEFAULT_WEIGHTS 1 3 = Inr (xs, 2)"
    by blast
  from weighted_sample_h_sim [OF run p w] v have "gens h' caller_rng = 2"
    by (auto simp: module_world_simps)
  with run show ?thesis by simp
qed

section \<open>The claims\<close>







text \<open>
  C3, as the code has it, for weights that are floats. \<open>draw_prizes\<close> raises
  ValueError if and only if \<open>quantity < 1\<close>, or the weights do not have six elements,
  or the draw is unique and \<open>quantity > 6\<close>, or the draw is tiered with replacement
  and the total of the weights is at most 0 or is not finite (then \<open>rng.choices\<close>
  raises it). It raises OverflowError if and only if none of these holds, the draw is
  tiered with replacement and \<open>quantity\<close> exceeds \<open>sys.maxsize\<close>. It raises no
  other exception; on every other input it returns.
\<close>

theorem draw_prizes_raises_iff:
  assumes "rng_ok ops" and "ws = (case weights of None \<Rightarrow> DEFAULT_WEIGHTS | Some v \<Rightarrow> v)"
  shows "((\<exists>msg. draw_prizes ops entropy quantity unique seed tiered weights = Inl (ValueError msg)) \<longleftrightarrow>
            quantity < 1 \<or> length ws \<noteq> 6 \<or> (unique \<and> 6 < quantity) \<or>
            (\<not> unique \<and> tiered \<and>
               (fle (total_weight ws) (Finite 0) \<or> \<not> isfinite (total_weight ws)))) \<and>
         ((\<exists>msg. draw_prizes ops entropy quantity unique seed tiered weights = Inl (OverflowError msg)) \<longleftrightarrow>
            1 \<le> quantity \<and> length ws = 6 \<and> \<not> unique \<and> tiered \<and>
            \<not> fle (total_weight ws) (Finite 0) \<and> isfinite (total_weight ws) \<and>
            PY_SSIZE_T_MAX < quantity) \<and>
         (\<forall>e. draw_prizes ops entropy quantity unique seed tiered weights = Inl e \<longrightarrow>
              (\<exists>msg. e = ValueError msg \<or> e = OverflowError msg))"
  using assms by (rule draw_prizes_outcome)

text \<open>
  The claim as stated fails for a tiered draw with replacement whose weights are all 0:
  none of the three conditions holds and the call raises ValueError, whatever the
  generator.
\<close>

theorem draw_prizes_zero_total_counterexample:
  "\<not> ((1::int) < 1) \<and> length [Finite 0, Finite 0, Finite 0, Finite 0, Finite 0, Finite 0] = 6 \<and>
   \<not> (False \<and> (6::int) < 1) \<and>
   draw_prizes demo_rng 0 1 False None True
     (Some [Finite 0, Finite 0, Finite 0, Finite 0, Finite 0, Finite 0]) =
     Inl (ValueError ''Total of weights must be greater than zero'')"
  by (simp add: draw_prizes_def zero_total_run returned_def)

theorem draw_prizes_raises_iff_witness:
  "rng_ok demo_rng \<and>
   (\<exists>msg. draw_prizes demo_rng 0 7 True None True None = Inl (ValueError msg)) \<and>
   (\<exists>xs. draw_prizes demo_rng 0 3 False None True None = Inr xs)"
proof -
  have h: "DEFAULT_WEIGHTS = (case None of None \<Rightarrow> DEFAULT_WEIGHTS | Some v \<Rightarrow> v)" by simp
  note t1 = draw_prizes_raises_iff [OF demo_rng_ok h,
      where entropy = 0 and quantity = 7 and unique = True and seed = None and tiered = True]
  note t2 = draw_prizes_raises_iff [OF demo_rng_ok h,
      where entropy = 0 and quantity = 3 and unique = False and seed = None and tiered = True]
  from t1 have a: "\<exists>msg. draw_prizes demo_rng 0 7 True None True None = Inl (ValueError msg)"
    by simp
  from t2 default_total have "\<not> (\<exists>msg. draw_prizes demo_rng 0 3 False None True None = Inl (ValueError msg))"
    and "\<not> (\<exists>msg. draw_prizes demo_rng 0 3 False None True None = Inl (OverflowError msg))"
    by (simp_all add: length_DEFAULT_WEIGHTS PY_SSIZE_T_MAX_def)
  with t2 have "\<not> (\<exists>e. draw_prizes demo_rng 0 3 False None True None = Inl e)" by blast
  then have "\<exists>xs. draw_prizes demo_rng 0 3 False None True None = Inr xs"
    by (cases "draw_prizes demo_rng 0 3 False None True None") auto
  with a demo_rng_ok show ?thesis by blast
qed




text \<open>
  C5, as the code has it. For every quantity of at least 1 and both values of
  \<open>tiered\<close>, a draw with replacement returns a list of exactly \<open>quantity\<close> entries,
  provided that, when the draw is tiered, the quantity is at most \<open>sys.maxsize\<close> and
  the weights are the default weights or six weights whose total is greater than 0 and
  finite.
\<close>

theorem replacement_draw_length:
  assumes "rng_ok ops" and "1 \<le> quantity"
    and "case weights of None \<Rightarrow> True
         | Some ws \<Rightarrow> length ws = 6 \<and>
             (tiered \<longrightarrow> \<not> fle (total_weight ws) (Finite 0) \<and> isfinite (total_weight ws))"
    and "tiered \<longrightarrow> quantity \<le> PY_SSIZE_T_MAX"
  shows "\<exists>xs. draw_prizes ops entropy quantity False seed tiered weights = Inr xs \<and>
           int (length xs) = quantity"
proof -
  define ws where "ws = (case weights of None \<Rightarrow> DEFAULT_WEIGHTS | Some v \<Rightarrow> v)"
  from assms(3) have len: "length ws = 6"
    by (simp add: ws_def length_DEFAULT_WEIGHTS split: option.splits)
  from assms(3,4) default_total
  have "tiered \<longrightarrow> \<not> fle (total_weight ws) (Finite 0) \<and> isfinite (total_weight ws) \<and>
          quantity \<le> PY_SSIZE_T_MAX"
    by (simp add: ws_def split: option.splits)
  with assms(1,2) ws_def len show ?thesis by (rule draw_prizes_replacement_ok)
qed

text \<open>
  The claim as stated fails for a tiered draw of quantity \<open>2 ^ 63\<close> with the default
  weights: \<open>rng.choices\<close> raises OverflowError, whatever the generator.
\<close>

theorem replacement_draw_overflow_counterexample:
  "(1::int) \<le> 2 ^ 63 \<and>
   draw_prizes demo_rng 0 (2 ^ 63) False None True None =
     Inl (OverflowError ''Python int too large to convert to C ssize_t'')"
proof
  show "(1::int) \<le> 2 ^ 63" by simp
next
  show "draw_prizes demo_rng 0 (2 ^ 63) False None True None =
     Inl (OverflowError ''Python int too large to convert to C ssize_t'')"
    by (simp only: draw_prizes_def overflow_run returned_def sum.case)
qed

theorem replacement_draw_length_witness:
  "rng_ok demo_rng \<and> (1::int) \<le> 100 \<and> (100::int) \<le> PY_SSIZE_T_MAX \<and>
   (\<exists>xs. draw_prizes demo_rng 0 100 False None True None = Inr xs \<and> int (length xs) = 100)"
proof -
  have h: "case (None :: double list option) of None \<Rightarrow> True
           | Some ws \<Rightarrow> length ws = 6 \<and>
               (True \<longrightarrow> \<not> fle (total_weight ws) (Finite 0) \<and> isfinite (total_weight ws))" by simp
  have m: "(100::int) \<le> PY_SSIZE_T_MAX" by (simp add: PY_SSIZE_T_MAX_def)
  from replacement_draw_length [OF demo_rng_ok _ h, of 100 0 None] m demo_rng_ok
  show ?thesis by simp
qed

text \<open>
  C6. Determinism: with an integer seed the result of \<open>draw_prizes\<close> is a function of
  the arguments and the seed alone; the ambient generator state plays no part. The calls
  that a run makes to the generator are those the specification lists: run with a
  generator that logs its calls, \<open>draw_prizes\<close> computes what it computes without the
  log, and the log of a run that returns is \<open>run_calls\<close>: one call for each of the
  \<open>quantity\<close> selections, which for the weighted sampler is \<open>random()\<close> in a
  weighted step and \<open>randrange(len(pop))\<close> in a fallback step.
\<close>

theorem seeded_draw_deterministic:
  assumes "ws = (case weights of None \<Rightarrow> DEFAULT_WEIGHTS | Some v \<Rightarrow> v)"
  shows "draw_prizes ops entropy1 quantity unique (Some s) tiered weights =
           draw_prizes ops entropy2 quantity unique (Some s) tiered weights \<and>
         draw_prizes_run (logged ops) (entropy1, []) quantity unique (Some s) tiered weights =
           (case draw_prizes_run ops entropy1 quantity unique (Some s) tiered weights of
              Inl e \<Rightarrow> Inl e
            | Inr (xs, g') \<Rightarrow>
                Inr (xs, (g', run_calls ops (rng_seed ops s) quantity unique tiered ws))) \<and>
         (\<forall>xs g'. draw_prizes_run ops entropy1 quantity unique (Some s) tiered weights = Inr (xs, g') \<longrightarrow>
            length (run_calls ops (rng_seed ops s) quantity unique tiered ws) = nat quantity)"
proof (intro conjI allI impI)
  show "draw_prizes ops entropy1 quantity unique (Some s) tiered weights =
          draw_prizes ops entropy2 quantity unique (Some s) tiered weights"
    by (simp add: draw_prizes_def draw_prizes_run_def)
next
  have r: "rng_seed ops s = (case Some s of None \<Rightarrow> entropy1 | Some s \<Rightarrow> rng_seed ops s)" by simp
  from assms r
  show "draw_prizes_run (logged ops) (entropy1, []) quantity unique (Some s) tiered weights =
           (case draw_prizes_run ops entropy1 quantity unique (Some s) tiered weights of
              Inl e \<Rightarrow> Inl e
            | Inr (xs, g') \<Rightarrow>
                Inr (xs, (g', run_calls ops (rng_seed ops s) quantity unique tiered ws)))"
    by (rule draw_prizes_run_logged)
next
  fix xs g'
  have r: "rng_seed ops s = (case Some s of None \<Rightarrow> entropy1 | Some s \<Rightarrow> rng_seed ops s)" by simp
  assume "draw_prizes_run ops entropy1 quantity unique (Some s) tiered weights = Inr (xs, g')"
  with assms r show "length (run_calls ops (rng_seed ops s) quantity unique tiered ws) = nat quantity"
    by (rule run_calls_length)
qed

text \<open>
  The witness is a unique tiered draw of three with the weights \<open>[0,0,0,0,0,1]\<close>:
  two weighted steps and a fallback step on the four categories that remain.
\<close>

theorem seeded_draw_deterministic_witness:
  "draw_prizes demo_rng 1 3 True (Some 0) True
     (Some [Finite 0, Finite 0, Finite 0, Finite 0, Finite 0, Finite 1]) =
   draw_prizes demo_rng 2 3 True (Some 0) True
     (Some [Finite 0, Finite 0, Finite 0, Finite 0, Finite 0, Finite 1]) \<and>
   draw_prizes_run demo_rng 1 3 True (Some 0) True
     (Some [Finite 0, Finite 0, Finite 0, Finite 0, Finite 0, Finite 1]) =
     Inr ([''photo frame'', ''postcard'', ''notebook''], 13) \<and>
   draw_prizes_run (logged demo_rng) (1, []) 3 True (Some 0) True
     (Some [Finite 0, Finite 0, Finite 0, Finite 0, Finite 0, Finite 1]) =
     Inr ([''photo frame'', ''postcard'', ''notebook''],
          (13, [CallRandom, CallRandom, CallRandbelow 4])) \<and>
   length [CallRandom, CallRandom, CallRandbelow 4] = nat 3"
proof -
  let ?w = "[Finite 0, Finite 0, Finite 0, Finite 0, Finite 0, Finite 1]"
  have h: "?w = (case Some ?w of None \<Rightarrow> DEFAULT_WEIGHTS | Some v \<Rightarrow> v)" by simp
  note t = seeded_draw_deterministic [OF h, where ops = demo_rng and ?entropy1.0 = 1 and ?entropy2.0 = 2
      and quantity = 3 and unique = True and s = 0 and tiered = True]
  note run = three_step_run [of 1]
  from t have a: "draw_prizes demo_rng 1 3 True (Some 0) True (Some ?w) =
                  draw_prizes demo_rng 2 3 True (Some 0) True (Some ?w)" by blast
  from t have "draw_prizes_run (logged demo_rng) (1, []) 3 True (Some 0) True (Some ?w) =
           (case draw_prizes_run demo_rng 1 3 True (Some 0) True (Some ?w) of
              Inl e \<Rightarrow> Inl e
            | Inr (xs, g') \<Rightarrow>
                Inr (xs, (g', run_calls demo_rng (rng_seed demo_rng 0) 3 True True ?w)))" by blast
  then have b: "draw_prizes_run (logged demo_rng) (1, []) 3 True (Some 0) True (Some ?w) =
     Inr ([''photo frame'', ''postcard'', ''notebook''],
          (13, [CallRandom, CallRandom, CallRandbelow 4]))"
    by (simp only: run three_step_calls sum.case prod.case)
  from t run have "length (run_calls demo_rng (rng_seed demo_rng 0) 3 True True ?w) = nat 3"
    by blast
  then have c: "length [CallRandom, CallRandom, CallRandbelow 4] = nat 3"
    by (simp only: three_step_calls)
  from a run b c show ?thesis by blast
qed

text \<open>
  C7. When the remaining weights sum to at most 0, the step takes
  \<open>idx = rng.randrange(len(pop))\<close>, removes that category and its weight and appends
  the category to the result; the step succeeds. Sampling with an all-zero weights list
  therefore never fails: it returns \<open>k\<close> categories.
\<close>

theorem fallback_step_uniform_and_succeeds:
  assumes "rng_ok ops"
  shows "(length pop = length w \<and> pop \<noteq> [] \<and> fle (py_sum w) (Finite 0) \<and>
          rng_randbelow ops (length pop) g = (idx, g') \<longrightarrow>
            idx < length pop \<and>
            randrange ops (length pop) g = Inr (idx, g') \<and>
            draw_step ops (pop, w, result, g) =
              Inr (take idx pop @ drop (Suc idx) pop, take idx w @ drop (Suc idx) w,
                   result @ [pop ! idx], g')) \<and>
         (0 \<le> k \<and> k \<le> int (length population) \<longrightarrow>
            (\<exists>xs g''. weighted_sample_without_replacement ops population
                        (replicate (length population) (Finite 0)) k g0 = Inr (xs, g'') \<and>
                      int (length xs) = k \<and> set xs \<subseteq> set population))"
proof (intro conjI impI; elim conjE)
  assume len: "length pop = length w" and ne: "pop \<noteq> []" and np: "fle (py_sum w) (Finite 0)"
    and rnd: "rng_randbelow ops (length pop) g = (idx, g')"
  from draw_step_fallback [OF assms len ne np rnd, of result]
  show "idx < length pop"
    and "draw_step ops (pop, w, result, g) =
           Inr (take idx pop @ drop (Suc idx) pop, take idx w @ drop (Suc idx) w,
                result @ [pop ! idx], g')" by simp_all
  from ne rnd show "randrange ops (length pop) g = Inr (idx, g')" by (simp add: randrange_def)
next
  assume "0 \<le> k" and "k \<le> int (length population)"
  with assms show "\<exists>xs g''. weighted_sample_without_replacement ops population
                   (replicate (length population) (Finite 0)) k g0 = Inr (xs, g'') \<and>
                 int (length xs) = k \<and> set xs \<subseteq> set population"
    by (rule weighted_sample_zeros)
qed

theorem fallback_step_uniform_and_succeeds_witness:
  "rng_ok demo_rng \<and>
   draw_step demo_rng ([''a'', ''b'', ''c''], [Finite 0, Finite 0, Finite 0], [], 5) =
     Inr ([''a'', ''b''], [Finite 0, Finite 0], [''c''], 12) \<and>
   (\<exists>xs g''. weighted_sample_without_replacement demo_rng PRIZES
               (replicate (length PRIZES) (Finite 0)) 6 1 =
               Inr (xs, g'') \<and> int (length xs) = 6 \<and> set xs \<subseteq> set PRIZES)"
proof -
  have h: "length [''a'', ''b'', ''c''] = length [Finite 0, Finite 0, Finite 0] \<and>
           [''a'', ''b'', ''c''] \<noteq> [] \<and>
           fle (py_sum [Finite 0, Finite 0, Finite 0]) (Finite 0) \<and>
           rng_randbelow demo_rng (length [''a'', ''b'', ''c'']) 5 = (2, 12)"
    by (simp add: py_sum_small demo_randbelow demo_next_def)
  have k: "(0::int) \<le> 6 \<and> (6::int) \<le> int (length PRIZES)" by (simp add: length_PRIZES)
  note t = fallback_step_uniform_and_succeeds [OF demo_rng_ok,
      where pop = "[''a'', ''b'', ''c'']" and w = "[Finite 0, Finite 0, Finite 0]" and g = 5
        and idx = 2 and g' = 12 and result = "[]" and k = 6 and population = PRIZES and ?g0.0 = 1]
  from t h have "draw_step demo_rng ([''a'', ''b'', ''c''], [Finite 0, Finite 0, Finite 0], [], 5) =
                   Inr ([''a'', ''b''], [Finite 0, Finite 0], [''c''], 12)" by simp
  moreover from t k have "\<exists>xs g''. weighted_sample_without_replacement demo_rng PRIZES
      (replicate (length PRIZES) (Finite 0)) 6 1 = Inr (xs, g'') \<and> int (length xs) = 6 \<and>
      set xs \<subseteq> set PRIZES"
    by blast
  ultimately show ?thesis using demo_rng_ok by blast
qed

text \<open>
  C8. \<open>main\<close> returns 1 when the quantity entered at the prompt is not an integer,
  writing its message to the error stream. With a quantity \<open>q\<close>, from the command
  line or from the prompt: when \<open>draw_prizes\<close> raises ValueError with the message
  \<open>msg\<close>, \<open>main\<close> returns 2 and writes \<open>Error: msg\<close> to the error stream and
  no draw output; when \<open>draw_prizes\<close> returns the prizes, \<open>main\<close> returns 0 and
  writes the heading, one line per prize numbered from 1, and a summary with one line
  for each category that was drawn, in the order of \<open>PRIZES\<close>. The validation error
  is raised exactly when \<open>q < 1\<close>, or the draw is unique and \<open>q > 6\<close>. The draw
  returns \<open>q\<close> prizes otherwise, except in a tiered draw with replacement of more
  than \<open>sys.maxsize\<close> prizes: that raises OverflowError, which is not a validation
  error and leaves \<open>main\<close> uncaught.
\<close>

theorem main_exit_codes:
  assumes "rng_ok ops"
  shows "(arg_quantity a = None \<and> int_of (strip bad) = None \<longrightarrow>
            main ops int_of entropy a (Some bad) =
              (Inr 1, \<lparr>stdout = [''Enter quantity (number of prizes bought): ''],
                       stderr = [''Invalid input. Please enter a positive integer for quantity.'' @ [nl]]\<rparr>)) \<and>
         ((arg_quantity a = Some q \<and> pre = []) \<or>
          (arg_quantity a = None \<and> inp = Some raw \<and> int_of (strip raw) = Some q \<and>
           pre = [''Enter quantity (number of prizes bought): '']) \<longrightarrow>
            (\<forall>msg. draw_prizes ops entropy q (arg_unique a) (arg_seed a) (\<not> arg_no_tiered a) None =
                     Inl (ValueError msg) \<longrightarrow>
               main ops int_of entropy a inp =
                 (Inr 2, \<lparr>stdout = pre, stderr = [''Error: '' @ msg @ [nl]]\<rparr>)) \<and>
            (\<forall>prizes. draw_prizes ops entropy q (arg_unique a) (arg_seed a) (\<not> arg_no_tiered a) None =
                        Inr prizes \<longrightarrow>
               main ops int_of entropy a inp =
                 (Inr 0,
                  \<lparr>stdout = pre @
                     [[nl] @ ''You bought: '' @ str_int q
                        @ '' prize(s). Here are your randomized prizes:'' @ [nl] @ [nl]] @
                     map (\<lambda>j. '' '' @ str_nat (Suc j) @ ''. '' @ prizes ! j @ [nl])
                       [0..<length prizes] @
                     [[nl] @ ''Summary:'' @ [nl]] @
                     map (\<lambda>p. '' - '' @ p @ '': '' @ str_nat (count_list prizes p) @ [nl])
                       (filter (\<lambda>p. p \<in> set prizes) PRIZES),
                   stderr = []\<rparr>)) \<and>
            ((\<exists>msg. draw_prizes ops entropy q (arg_unique a) (arg_seed a) (\<not> arg_no_tiered a) None =
                      Inl (ValueError msg)) \<longleftrightarrow>
               q < 1 \<or> (arg_unique a \<and> 6 < q)) \<and>
            (\<not> (q < 1 \<or> (arg_unique a \<and> 6 < q)) \<and>
             \<not> (\<not> arg_unique a \<and> \<not> arg_no_tiered a \<and> PY_SSIZE_T_MAX < q) \<longrightarrow>
               (\<exists>prizes. draw_prizes ops entropy q (arg_unique a) (arg_seed a) (\<not> arg_no_tiered a) None =
                           Inr prizes \<and> int (length prizes) = q)) \<and>
            (\<not> arg_unique a \<and> \<not> arg_no_tiered a \<and> PY_SSIZE_T_MAX < q \<longrightarrow>
               (\<exists>msg. main ops int_of entropy a inp =
                        (Inl (OverflowError msg), \<lparr>stdout = pre, stderr = []\<rparr>))))"
proof (intro conjI impI allI)
  assume "arg_quantity a = None \<and> int_of (strip bad) = None"
  then show "main ops int_of entropy a (Some bad) =
              (Inr 1, \<lparr>stdout = [''Enter quantity (number of prizes bought): ''],
                       stderr = [''Invalid input. Please enter a positive integer for quantity.'' @ [nl]]\<rparr>)"
    by (simp add: main_def print_err_def)
next
  fix msg
  assume src: "(arg_quantity a = Some q \<and> pre = []) \<or>
          (arg_quantity a = None \<and> inp = Some raw \<and> int_of (strip raw) = Some q \<and>
           pre = [''Enter quantity (number of prizes bought): ''])"
    and d: "draw_prizes ops entropy q (arg_unique a) (arg_seed a) (\<not> arg_no_tiered a) None =
              Inl (ValueError msg)"
  have "main ops int_of entropy a inp = main_draw ops entropy a q \<lparr>stdout = pre, stderr = []\<rparr>"
    using src by (rule main_with_quantity)
  with main_draw_error [OF d, of "\<lparr>stdout = pre, stderr = []\<rparr>"]
  show "main ops int_of entropy a inp =
          (Inr 2, \<lparr>stdout = pre, stderr = [''Error: '' @ msg @ [nl]]\<rparr>)"
    by simp
next
  fix prizes
  assume src: "(arg_quantity a = Some q \<and> pre = []) \<or>
          (arg_quantity a = None \<and> inp = Some raw \<and> int_of (strip raw) = Some q \<and>
           pre = [''Enter quantity (number of prizes bought): ''])"
    and d: "draw_prizes ops entropy q (arg_unique a) (arg_seed a) (\<not> arg_no_tiered a) None =
              Inr prizes"
  have "main ops int_of entropy a inp = main_draw ops entropy a q \<lparr>stdout = pre, stderr = []\<rparr>"
    using src by (rule main_with_quantity)
  with main_draw_success [OF d, of "\<lparr>stdout = pre, stderr = []\<rparr>"]
  show "main ops int_of entropy a inp =
          (Inr 0,
           \<lparr>stdout = pre @
              [[nl] @ ''You bought: '' @ str_int q
                 @ '' prize(s). Here are your randomized prizes:'' @ [nl] @ [nl]] @
              map (\<lambda>j. '' '' @ str_nat (Suc j) @ ''. '' @ prizes ! j @ [nl])
                [0..<length prizes] @
              [[nl] @ ''Summary:'' @ [nl]] @
              map (\<lambda>p. '' - '' @ p @ '': '' @ str_nat (count_list prizes p) @ [nl])
                (filter (\<lambda>p. p \<in> set prizes) PRIZES),
            stderr = []\<rparr>)"
    by simp
next
  from draw_prizes_default_raises [OF assms]
  show "(\<exists>msg. draw_prizes ops entropy q (arg_unique a) (arg_seed a) (\<not> arg_no_tiered a) None =
                Inl (ValueError msg)) \<longleftrightarrow> q < 1 \<or> (arg_unique a \<and> 6 < q)" .
next
  assume "\<not> (q < 1 \<or> (arg_unique a \<and> 6 < q)) \<and>
          \<not> (\<not> arg_unique a \<and> \<not> arg_no_tiered a \<and> PY_SSIZE_T_MAX < q)"
  then have "\<not> (q < 1 \<or> (arg_unique a \<and> 6 < q))"
    and "\<not> (\<not> arg_unique a \<and> \<not> arg_no_tiered a \<and> PY_SSIZE_T_MAX < q)" by blast+
  with assms
  show "\<exists>prizes. draw_prizes ops entropy q (arg_unique a) (arg_seed a) (\<not> arg_no_tiered a) None =
                  Inr prizes \<and> int (length prizes) = q"
    by (rule draw_prizes_default_returns)
next
  assume src: "(arg_quantity a = Some q \<and> pre = []) \<or>
          (arg_quantity a = None \<and> inp = Some raw \<and> int_of (strip raw) = Some q \<and>
           pre = [''Enter quantity (number of prizes bought): ''])"
    and o: "\<not> arg_unique a \<and> \<not> arg_no_tiered a \<and> PY_SSIZE_T_MAX < q"
  from draw_prizes_default_overflow [OF assms, of entropy q "arg_unique a" "arg_seed a"
      "\<not> arg_no_tiered a"] o
  obtain msg where d: "draw_prizes ops entropy q (arg_unique a) (arg_seed a) (\<not> arg_no_tiered a) None =
                         Inl (OverflowError msg)" by blast
  have "main ops int_of entropy a inp = main_draw ops entropy a q \<lparr>stdout = pre, stderr = []\<rparr>"
    using src by (rule main_with_quantity)
  with main_draw_overflow [OF d, of "\<lparr>stdout = pre, stderr = []\<rparr>"]
  show "\<exists>msg. main ops int_of entropy a inp =
                (Inl (OverflowError msg), \<lparr>stdout = pre, stderr = []\<rparr>)"
    by simp
qed

theorem main_exit_codes_witness:
  "rng_ok demo_rng \<and>
   main demo_rng int_ascii 0 \<lparr>arg_quantity = None, arg_unique = False, arg_seed = Some 7, arg_no_tiered = True\<rparr>
       (Some ''abc'') =
     (Inr 1, \<lparr>stdout = [''Enter quantity (number of prizes bought): ''],
              stderr = [''Invalid input. Please enter a positive integer for quantity.'' @ [nl]]\<rparr>) \<and>
   (\<exists>msg. draw_prizes demo_rng 0 (- 3) True (Some 7) False None = Inl (ValueError msg) \<and>
      main demo_rng int_ascii 0
        \<lparr>arg_quantity = None, arg_unique = True, arg_seed = Some 7, arg_no_tiered = True\<rparr> (Some ''-3'') =
        (Inr 2, \<lparr>stdout = [''Enter quantity (number of prizes bought): ''],
                 stderr = [''Error: '' @ msg @ [nl]]\<rparr>)) \<and>
   (\<exists>prizes. draw_prizes demo_rng 0 2 False (Some 7) False None = Inr prizes \<and>
      int (length prizes) = 2 \<and>
      fst (main demo_rng int_ascii 0
             \<lparr>arg_quantity = None, arg_unique = False, arg_seed = Some 7, arg_no_tiered = True\<rparr>
             (Some '' 2 '')) = Inr 0)"
proof -
  let ?a = "\<lparr>arg_quantity = None, arg_unique = False, arg_seed = Some 7, arg_no_tiered = True\<rparr>"
  let ?b = "\<lparr>arg_quantity = None, arg_unique = True, arg_seed = Some 7, arg_no_tiered = True\<rparr>"
  let ?p = "[''Enter quantity (number of prizes bought): '']"
  note t1 = main_exit_codes [OF demo_rng_ok, where a = ?a and int_of = int_ascii and bad = "''abc''"
      and entropy = 0, THEN conjunct1]
  note t2 = main_exit_codes [OF demo_rng_ok, where a = ?b and int_of = int_ascii and q = "- 3"
      and pre = ?p and inp = "Some ''-3''" and raw = "''-3''" and entropy = 0, THEN conjunct2]
  note t3 = main_exit_codes [OF demo_rng_ok, where a = ?a and int_of = int_ascii and q = 2
      and pre = ?p and inp = "Some '' 2 ''" and raw = "'' 2 ''" and entropy = 0, THEN conjunct2]
  from t1 have r1: "main demo_rng int_ascii 0 ?a (Some ''abc'') =
     (Inr 1, \<lparr>stdout = ?p,
              stderr = [''Invalid input. Please enter a positive integer for quantity.'' @ [nl]]\<rparr>)"
    by (simp add: int_ascii_examples)
  have c2: "(arg_quantity ?b = Some (- 3) \<and> ?p = []) \<or>
          (arg_quantity ?b = None \<and> Some ''-3'' = Some ''-3'' \<and> int_ascii (strip ''-3'') = Some (- 3) \<and>
           ?p = ?p)"
    by (simp add: int_ascii_examples)
  from t2 c2 obtain msg
    where e2: "draw_prizes demo_rng 0 (- 3) (arg_unique ?b) (arg_seed ?b) (\<not> arg_no_tiered ?b) None =
                 Inl (ValueError msg)"
    by auto
  with t2 c2 have "main demo_rng int_ascii 0 ?b (Some ''-3'') =
        (Inr 2, \<lparr>stdout = ?p, stderr = [''Error: '' @ msg @ [nl]]\<rparr>)"
    by blast
  with e2 have r2: "\<exists>msg. draw_prizes demo_rng 0 (- 3) True (Some 7) False None = Inl (ValueError msg) \<and>
      main demo_rng int_ascii 0 ?b (Some ''-3'') =
        (Inr 2, \<lparr>stdout = ?p, stderr = [''Error: '' @ msg @ [nl]]\<rparr>)"
    by auto
  have c3: "(arg_quantity ?a = Some 2 \<and> ?p = []) \<or>
          (arg_quantity ?a = None \<and> Some '' 2 '' = Some '' 2 '' \<and> int_ascii (strip '' 2 '') = Some 2 \<and>
           ?p = ?p)"
    by (simp add: int_ascii_examples)
  have n3: "\<not> ((2::int) < 1 \<or> (arg_unique ?a \<and> (6::int) < 2)) \<and>
            \<not> (\<not> arg_unique ?a \<and> \<not> arg_no_tiered ?a \<and> PY_SSIZE_T_MAX < 2)" by simp
  from t3 c3 n3 obtain prizes
    where e3: "draw_prizes demo_rng 0 2 (arg_unique ?a) (arg_seed ?a) (\<not> arg_no_tiered ?a) None =
                 Inr prizes" and l3: "int (length prizes) = 2"
    by blast
  with t3 c3 obtain out where "main demo_rng int_ascii 0 ?a (Some '' 2 '') = (Inr 0, out)"
    by blast
  then have "fst (main demo_rng int_ascii 0 ?a (Some '' 2 '')) = Inr 0" by simp
  with e3 l3 have r3: "\<exists>prizes. draw_prizes demo_rng 0 2 False (Some 7) False None = Inr prizes \<and>
      int (length prizes) = 2 \<and> fst (main demo_rng int_ascii 0 ?a (Some '' 2 '')) = Inr 0"
    by auto
  from demo_rng_ok r1 r2 r3 show ?thesis by blast
qed

text \<open>
  C9, as the code has it. On the store, a call of \<open>draw_prizes\<close> leaves every
  object that existed before the call as it was: the module's \<open>PRIZES\<close> and
  \<open>DEFAULT_WEIGHTS\<close>, the caller's weights list and every generator; it writes
  nothing to the console; its effects are new objects, the returned list among them.
  A call of \<open>weighted_sample_without_replacement\<close> leaves every list that existed
  before the call as it was, the caller's population and weights among them, since it
  pops from its own copies, and it writes nothing to the console; but it advances the
  generator \<open>rng\<close> of its caller, and only that generator: it leaves it in the state
  that the calls of \<open>random()\<close> and \<open>randrange\<close> of its steps lead to.
\<close>

theorem sampler_frame:
  "(draw_prizes_h ops entropy quantity unique seed tiered wref h = (r, h') \<longrightarrow>
      unchanged_below (fresh h) h h') \<and>
   (weighted_sample_without_replacement_h ops population weights k rng h = (r2, h2) \<longrightarrow>
      lists_unchanged (fresh h) h h2 \<and> (\<forall>a. a \<noteq> rng \<longrightarrow> gens h2 a = gens h a) \<and>
      (population < fresh h \<and> weights < fresh h \<longrightarrow>
         (case weighted_sample_without_replacement ops (strs h population) (nums h weights) k
                 (gens h rng) of
            Inl e \<Rightarrow> r2 = Inl e
          | Inr (xs, g'') \<Rightarrow>
              (\<exists>a. r2 = Inr a \<and> fresh h \<le> a \<and> strs h2 a = xs \<and> gens h2 rng = g''))))"
proof (intro conjI impI)
  assume "draw_prizes_h ops entropy quantity unique seed tiered wref h = (r, h')"
  then show "unchanged_below (fresh h) h h'" by (rule draw_prizes_h_frame)
next
  assume run: "weighted_sample_without_replacement_h ops population weights k rng h = (r2, h2)"
  from weighted_sample_h_frame [OF run]
  show "lists_unchanged (fresh h) h h2" and "\<forall>a. a \<noteq> rng \<longrightarrow> gens h2 a = gens h a" by blast+
  assume "population < fresh h \<and> weights < fresh h"
  then have "population < fresh h" and "weights < fresh h" by blast+
  with run show "case weighted_sample_without_replacement ops (strs h population) (nums h weights) k
                 (gens h rng) of
            Inl e \<Rightarrow> r2 = Inl e
          | Inr (xs, g'') \<Rightarrow>
              (\<exists>a. r2 = Inr a \<and> fresh h \<le> a \<and> strs h2 a = xs \<and> gens h2 rng = g'')"
    by (rule weighted_sample_h_sim)
qed

text \<open>
  The claim as stated fails for \<open>weighted_sample_without_replacement\<close>: the
  generator that the caller passed is another observable effect. After one draw with
  the module's lists, the caller's generator is in the state that follows a call of
  \<open>random()\<close>, not in the state it was in.
\<close>

theorem sampler_advances_generator_counterexample:
  "gens (module_world 3) caller_rng = (3::nat) \<and>
   gens (snd (weighted_sample_without_replacement_h demo_rng PRIZES_ref DEFAULT_WEIGHTS_ref 1
                caller_rng (module_world 3))) caller_rng = 2 \<and>
   snd (rng_random demo_rng 3) = 2 \<and> (2::nat) \<noteq> 3"
  by (simp add: one_default_draw_h module_world_simps demo_random_3)

theorem sampler_frame_witness:
  "strs (snd (draw_prizes_h demo_rng 0 6 True (Some 0) True None (module_world 3))) PRIZES_ref = PRIZES \<and>
   nums (snd (draw_prizes_h demo_rng 0 6 True (Some 0) True None (module_world 3))) DEFAULT_WEIGHTS_ref =
     DEFAULT_WEIGHTS \<and>
   gens (snd (draw_prizes_h demo_rng 0 6 True (Some 0) True None (module_world 3))) caller_rng = 3 \<and>
   screen (snd (draw_prizes_h demo_rng 0 6 True (Some 0) True None (module_world 3))) =
     \<lparr>stdout = [], stderr = []\<rparr> \<and>
   strs (snd (weighted_sample_without_replacement_h demo_rng PRIZES_ref DEFAULT_WEIGHTS_ref 3
            caller_rng (module_world 3))) PRIZES_ref = PRIZES \<and>
   nums (snd (weighted_sample_without_replacement_h demo_rng PRIZES_ref DEFAULT_WEIGHTS_ref 3
            caller_rng (module_world 3))) DEFAULT_WEIGHTS_ref = DEFAULT_WEIGHTS"
proof -
  let ?h = "module_world (3::nat)"
  obtain r h' where d: "draw_prizes_h demo_rng 0 6 True (Some 0) True None ?h = (r, h')"
    by (cases "draw_prizes_h demo_rng 0 6 True (Some 0) True None ?h")
  obtain r2 h2 where w: "weighted_sample_without_replacement_h demo_rng PRIZES_ref
      DEFAULT_WEIGHTS_ref 3 caller_rng ?h = (r2, h2)"
    by (cases "weighted_sample_without_replacement_h demo_rng PRIZES_ref DEFAULT_WEIGHTS_ref 3
                 caller_rng ?h")
  note t = sampler_frame [where h = ?h and ops = demo_rng and population = PRIZES_ref
      and weights = DEFAULT_WEIGHTS_ref and k = 3 and rng = caller_rng and entropy = 0
      and quantity = 6 and unique = True and seed = "Some 0" and tiered = True and wref = None
      and r = r and h' = h' and ?r2.0 = r2 and ?h2.0 = h2]
  from t d have "unchanged_below (fresh ?h) ?h h'" by blast
  then have a: "strs h' PRIZES_ref = PRIZES" "nums h' DEFAULT_WEIGHTS_ref = DEFAULT_WEIGHTS"
    "gens h' caller_rng = 3" "screen h' = \<lparr>stdout = [], stderr = []\<rparr>"
    by (simp_all add: unchanged_below_def lists_unchanged_def module_world_simps)
  from t w have "lists_unchanged (fresh ?h) ?h h2" by blast
  then have b: "strs h2 PRIZES_ref = PRIZES" "nums h2 DEFAULT_WEIGHTS_ref = DEFAULT_WEIGHTS"
    by (simp_all add: lists_unchanged_def module_world_simps)
  from a b d w show ?thesis by simp
qed

text \<open>
  C10. In all four modes, every element of a list returned by \<open>draw_prizes\<close> is one of
  the six category labels.
\<close>

theorem draw_prizes_members:
  assumes "draw_prizes ops entropy quantity unique seed tiered weights = Inr xs"
  shows "set xs \<subseteq> {''photo frame'', ''slogan'', ''sticker set'', ''notebook'', ''pin button'', ''postcard''}"
proof -
  define ws where "ws = (case weights of None \<Rightarrow> DEFAULT_WEIGHTS | Some v \<Rightarrow> v)"
  define rng where "rng = (case seed of None \<Rightarrow> entropy | Some s \<Rightarrow> rng_seed ops s)"
  from assms have q: "1 \<le> quantity" and lw: "length ws = 6" and u: "unique \<longrightarrow> quantity \<le> 6"
    by (auto simp: draw_prizes_def draw_prizes_run_def returned_def Let_def ws_def length_PRIZES
        split: if_splits)
  note modes = draw_prizes_run_modes [OF q lw u ws_def rng_def, of tiered]
  from assms obtain g' where run: "draw_prizes_run ops entropy quantity unique seed tiered weights =
      Inr (xs, g')"
    by (auto simp: draw_prizes_def returned_Inr)
  have "set xs \<subseteq> set PRIZES"
  proof (cases unique; cases tiered)
    assume "unique" "tiered"
    with modes run have "weighted_sample_without_replacement ops PRIZES ws quantity rng = Inr (xs, g')"
      by simp
    then show ?thesis by (rule weighted_sample_subset)
  next
    assume "unique" "\<not> tiered"
    with modes run have "sample ops PRIZES quantity rng = Inr (xs, g')" by simp
    then show ?thesis by (rule sample_subset)
  next
    assume "\<not> unique" "tiered"
    with modes run have "choices ops PRIZES ws quantity rng = Inr (xs, g')" by simp
    then show ?thesis by (rule choices_subset)
  next
    assume "\<not> unique" "\<not> tiered"
    with modes run have "choice_loop ops PRIZES (nat quantity) rng = Inr (xs, g')" by simp
    from choice_loop_subset [OF this] show ?thesis by simp
  qed
  then show ?thesis by (simp only: set_PRIZES)
qed

theorem draw_prizes_members_witness:
  "draw_prizes demo_rng 0 1 False (Some 7) False None = Inr [''slogan''] \<and>
   set [''slogan''] \<subseteq>
     {''photo frame'', ''slogan'', ''sticker set'', ''notebook'', ''pin button'', ''postcard''}"
proof -
  note r = one_choice_run
  from draw_prizes_members [OF r] r show ?thesis by blast
qed

end
